theory Spec2Isabelle
  imports Main "HOL-Library.Sublist"
begin

section \<open>String primitives of the host language\<close>

text \<open>
  Strings of index.ts are modelled as \<^typ>\<open>string\<close>: lists of code units below 256.
  \<open>String.prototype.trim\<close> removes white space and line terminators; in this range
  these are TAB, LF, VT, FF, CR, SPACE and NBSP.
\<close>

definition is_ws :: "char \<Rightarrow> bool" where
  "is_ws c \<longleftrightarrow> c \<in> {CHR 0x09, CHR 0x0A, CHR 0x0B, CHR 0x0C, CHR 0x0D, CHR 0x20, CHR 0xA0}"

definition trim :: "string \<Rightarrow> string" where
  "trim s = rev (dropWhile is_ws (rev (dropWhile is_ws s)))"

text \<open>\<open>Array.prototype.join\<close> on an array of strings.\<close>

fun join_with :: "string \<Rightarrow> string list \<Rightarrow> string" where
  "join_with sep [] = []"
| "join_with sep [x] = x"
| "join_with sep (x # y # ys) = x @ sep @ join_with sep (y # ys)"

text \<open>
  \<open>GetSubstitution\<close> for a string pattern (no captures): in the replacement text
  \<open>$$\<close> stands for a dollar sign, \<open>$&\<close> for the matched text, \<open>$`\<close> for the text before
  the match and \<open>$'\<close> for the text after it; every other character, also a dollar sign
  followed by anything else, is copied.
\<close>

fun getSubstitution :: "string \<Rightarrow> string \<Rightarrow> string \<Rightarrow> string \<Rightarrow> string" where
  "getSubstitution matched preceding following [] = []"
| "getSubstitution matched preceding following [c] = [c]"
| "getSubstitution matched preceding following (c # d # r) =
     (if c = CHR 0x24 then
        (if d = CHR 0x24 then CHR 0x24 # getSubstitution matched preceding following r
         else if d = CHR 0x26 then matched @ getSubstitution matched preceding following r
         else if d = CHR 0x60 then preceding @ getSubstitution matched preceding following r
         else if d = CHR 0x27 then following @ getSubstitution matched preceding following r
         else c # getSubstitution matched preceding following (d # r))
      else c # getSubstitution matched preceding following (d # r))"

text \<open>
  \<open>String.prototype.replaceAll(pat, rep)\<close> with a string pattern: the matches are the
  non-overlapping occurrences of \<open>pat\<close> found from left to right in the original text
  (the search resumes \<open>max 1 (length pat)\<close> following a match); \<open>preceding\<close> is the
  original text consumed so far.
\<close>

function replaceAll_from :: "string \<Rightarrow> string \<Rightarrow> string \<Rightarrow> string \<Rightarrow> string" where
  "replaceAll_from pat rep preceding [] =
     (if pat = [] then getSubstitution pat preceding [] rep else [])"
| "replaceAll_from pat rep preceding (c # cs) =
     (if pat = [] then
        getSubstitution pat preceding (c # cs) rep @ c # replaceAll_from pat rep (preceding @ [c]) cs
      else if prefix pat (c # cs) then
        getSubstitution pat preceding (drop (length pat) (c # cs)) rep @
          replaceAll_from pat rep (preceding @ pat) (drop (length pat) (c # cs))
      else c # replaceAll_from pat rep (preceding @ [c]) cs)"
  by pat_completeness auto
termination
  by (relation "measure (\<lambda>(pat, rep, preceding, s). length s)") auto

definition replaceAll :: "string \<Rightarrow> string \<Rightarrow> string \<Rightarrow> string" where
  "replaceAll s pat rep = replaceAll_from pat rep [] s"

text \<open>
  Decimal rendering of an integer, as a template literal prints the stage numbers of
  the status line.
\<close>

fun show_nat :: "nat \<Rightarrow> string" where
  "show_nat n =
     (if n < 10 then [char_of (48 + n)]
      else show_nat (n div 10) @ [char_of (48 + n mod 10)])"

definition show_int :: "int \<Rightarrow> string" where
  "show_int i = (if i < 0 then CHR ''-'' # show_nat (nat (- i)) else show_nat (nat i))"

section \<open>Data model\<close>

text \<open>
  \<open>Pr n\<close> holds the number of the pull request as the text that a template literal
  prints for it (123 as \<open>123\<close>, 1.5 as \<open>1.5\<close>, 1e21 as \<open>1e+21\<close>): printing it is all
  that the code does with the number.
\<close>

datatype ReviewTarget = Worktree | Staged | Pr string | Recent string

datatype stage_kind = Review | Synthesize

record ReviewSuiteStage =
  kind :: stage_kind
  stage_id :: string
  promptName :: string
  label :: string

definition STAGE_DONE_MARKER :: string where
  "STAGE_DONE_MARKER = ''[[PI_REVIEW_STAGE_DONE]]''"

definition DEFAULT_SUITE_STAGES :: "ReviewSuiteStage list" where
  "DEFAULT_SUITE_STAGES =
     [\<lparr>kind = Review, stage_id = ''overall'', promptName = ''review-overall'', label = ''Overall''\<rparr>,
      \<lparr>kind = Review, stage_id = ''linus'', promptName = ''review-linus'', label = ''Linus''\<rparr>,
      \<lparr>kind = Review, stage_id = ''staff'', promptName = ''review-staff'', label = ''Staff''\<rparr>,
      \<lparr>kind = Synthesize, stage_id = ''synthesize'', promptName = ''review-synthesize'',
        label = ''Synthesis''\<rparr>]"

record report =
  stageId :: string
  stageLabel :: string
  report_text :: string

text \<open>
  A content part of a message: \<open>TextPart t\<close> is a part with \<open>type === "text"\<close> and a
  string \<open>text\<close>; \<open>OtherPart\<close> is any other element of the content array. A content
  that is not an array is \<open>NotArray\<close>.
\<close>

datatype part = TextPart string | OtherPart

datatype content = Parts "part list" | NotArray

record message =
  role :: string
  content :: content
  timestamp :: int

text \<open>The mutable variables of the extension closure (index.ts, lines 326 to 332).\<close>

record suite =
  suiteActive :: bool
  suiteTarget :: "ReviewTarget option"
  suiteStageIndex :: int
  suiteReports :: "report list"
  suiteFreshContext :: bool
  suiteBoundaryCount :: int
  boundaryNeedsCapture :: bool

definition initial_suite :: suite where
  "initial_suite =
     \<lparr>suiteActive = False, suiteTarget = None, suiteStageIndex = 0, suiteReports = [],
      suiteFreshContext = True, suiteBoundaryCount = - 1, boundaryNeedsCapture = False\<rparr>"

text \<open>What a handler does to the host: the calls on \<open>ctx.ui\<close> and \<open>pi\<close>, in order.\<close>

datatype effect =
  SetStatus "string option"
| Notify string string
| SendUserMessage string

text \<open>
  The prompt files: the user's overrides under \<open>~/.pi/agent/prompts\<close> and the
  packaged defaults under \<open>prompts/\<close>, each keyed by file name. A file that exists is
  taken to be readable.
\<close>

record file_system =
  userPrompts :: "string \<Rightarrow> string option"
  pkgPrompts :: "string \<Rightarrow> string option"

section \<open>Prompt templates\<close>

text \<open>
  \<open>stripFrontmatter\<close> matches \<open>^---\r?\n[\s\S]*?\r?\n---(?:\r?\n)?([\s\S]*)$\<close>. The
  lazy middle part stops at the first line feed followed by three dashes that lies
  after the opening line, so the captured group is the text after that closing
  fence (less one optional line break, which the final \<open>trim\<close> removes anyway).
\<close>

fun after_first :: "string \<Rightarrow> string \<Rightarrow> string option" where
  "after_first pat [] = (if pat = [] then Some [] else None)"
| "after_first pat (c # cs) =
     (if prefix pat (c # cs) then Some (drop (length pat) (c # cs)) else after_first pat cs)"

definition frontmatter_body :: "string \<Rightarrow> string option" where
  "frontmatter_body raw =
     (if prefix (''---'' @ [CHR 0x0A]) raw
        then after_first (CHR 0x0A # ''---'') (drop 4 raw)
      else if prefix (''---'' @ [CHR 0x0D, CHR 0x0A]) raw
        then after_first (CHR 0x0A # ''---'') (drop 5 raw)
      else None)"

definition stripFrontmatter :: "string \<Rightarrow> string" where
  "stripFrontmatter raw =
     (case frontmatter_body raw of Some body \<Rightarrow> trim body | None \<Rightarrow> trim raw)"

fun renderVars :: "string \<Rightarrow> (string \<times> string) list \<Rightarrow> string" where
  "renderVars template [] = template"
| "renderVars template ((k, v) # vars) =
     renderVars (replaceAll template (''{{'' @ k @ ''}}'') v) vars"

definition loadPromptText :: "file_system \<Rightarrow> string \<Rightarrow> string" where
  "loadPromptText fs name =
     (case userPrompts fs (name @ ''.md'') of
        Some c \<Rightarrow> stripFrontmatter c
      | None \<Rightarrow>
         (case pkgPrompts fs (name @ ''.md'') of
            Some c \<Rightarrow> stripFrontmatter c
          | None \<Rightarrow> []))"

definition scope_common :: string where
  "scope_common =
     ''You are doing a high-signal code review.\<newline>\<newline>'' @
     ''Review priorities (in order):\<newline>'' @
     ''1) Correctness / logic errors\<newline>'' @
     ''2) Security / auth / secrets\<newline>'' @
     ''3) Error handling & observability (logs/metrics)\<newline>'' @
     ''4) Data correctness (schemas/migrations/serialization)\<newline>'' @
     ''5) Performance / concurrency / idempotency\<newline>'' @
     ''6) Tests (missing/weak tests)\<newline>\<newline>''"

fun buildScopePrompt :: "ReviewTarget \<Rightarrow> string" where
  "buildScopePrompt Worktree =
     scope_common @
     ''Review my local working tree changes (staged + unstaged + untracked).\<newline>\<newline>'' @
     ''Process:\<newline>'' @
     ''1) Establish scope:\<newline>'' @
     ''   - git status --porcelain=v1\<newline>'' @
     ''   - git diff --name-only\<newline>'' @
     ''   - git diff --cached --name-only\<newline>'' @
     ''   - git ls-files --others --exclude-standard\<newline>'' @
     ''2) For each changed file, inspect patches:\<newline>'' @
     ''   - git diff --patch -- <path>\<newline>'' @
     ''   - git diff --cached --patch -- <path>\<newline>'' @
     ''3) For untracked files, open and read content directly.\<newline>''"
| "buildScopePrompt Staged =
     scope_common @
     ''Review my staged changes only.\<newline>\<newline>'' @
     ''Process:\<newline>'' @
     ''1) Establish scope:\<newline>'' @
     ''   - git status --porcelain=v1\<newline>'' @
     ''   - git diff --cached --name-only\<newline>'' @
     ''2) Inspect each staged file:\<newline>'' @
     ''   - git diff --cached --patch -- <path>\<newline>''"
| "buildScopePrompt (Pr prNumber) =
     scope_common @
     ''Review GitHub PR #'' @ prNumber @ '' in this repo.\<newline>\<newline>'' @
     ''Process (use gh CLI):\<newline>'' @
     ''1) gh pr view '' @ prNumber @
       '' --json title,body,author,baseRefName,headRefName\<newline>'' @
     ''2) gh pr diff '' @ prNumber @ ''\<newline>'' @
     ''If gh is unavailable or errors, say exactly what to run / paste instead.\<newline>''"
| "buildScopePrompt (Recent baseSha) =
     scope_common @
     ''Review the commits from base commit '' @ baseSha @ '' (inclusive) to HEAD.\<newline>\<newline>'' @
     ''Process:\<newline>'' @
     ''1) Inspect the base commit itself:\<newline>'' @
     ''   - git show '' @ baseSha @ ''\<newline>'' @
     ''2) Try to review the full range (inclusive):\<newline>'' @
     ''   - git log --oneline --decorate '' @ baseSha @ ''^..HEAD\<newline>'' @
     ''   - git diff '' @ baseSha @ ''^..HEAD\<newline>'' @
     ''   If '' @ [CHR 0x60] @ baseSha @ ''^'' @ [CHR 0x60] @ '' fails (root commit), do:\<newline>'' @
     ''   - git log --oneline --decorate '' @ baseSha @ ''..HEAD\<newline>'' @
     ''   - git diff '' @ baseSha @ ''..HEAD\<newline>''"

section \<open>The review suite\<close>

definition currentStage :: "suite \<Rightarrow> ReviewSuiteStage option" where
  "currentStage s =
     (if 0 \<le> suiteStageIndex s \<and> suiteStageIndex s < int (length DEFAULT_SUITE_STAGES)
      then Some (DEFAULT_SUITE_STAGES ! nat (suiteStageIndex s)) else None)"

definition updateSuiteStatus :: "suite \<Rightarrow> effect list" where
  "updateSuiteStatus s =
     (if \<not> suiteActive s then [SetStatus None]
      else
        [SetStatus (Some
          (''Review suite: '' @
           (case currentStage s of Some stage \<Rightarrow> label stage | None \<Rightarrow> ''?'') @
           '' ('' @ show_int (suiteStageIndex s + 1) @ ''/'' @
           show_nat (length DEFAULT_SUITE_STAGES) @ '')'' @
           (if suiteFreshContext s then '' | fresh'' else [])))])"

definition endSuite :: "suite \<Rightarrow> string \<Rightarrow> suite \<times> effect list" where
  "endSuite s reason =
     (let s' = s\<lparr>suiteActive := False, suiteTarget := None, suiteStageIndex := 0,
                 suiteReports := [], suiteBoundaryCount := - 1,
                 boundaryNeedsCapture := False\<rparr>
      in (s', updateSuiteStatus s' @ [Notify (''Review suite ended: '' @ reason) ''info'']))"

definition reportSection :: "report \<Rightarrow> string" where
  "reportSection r =
     ''## '' @ stageLabel r @ ''\<newline>\<newline>'' @
     [CHR 0x60, CHR 0x60, CHR 0x60, CHR 0x0A] @ trim (report_text r) @
     [CHR 0x0A, CHR 0x60, CHR 0x60, CHR 0x60, CHR 0x0A]"

definition buildStagePrompt ::
  "file_system \<Rightarrow> suite \<Rightarrow> ReviewTarget \<Rightarrow> ReviewSuiteStage \<Rightarrow> string" where
  "buildStagePrompt fs s target stage =
     (if kind stage = Synthesize then
        renderVars (loadPromptText fs (promptName stage))
          [(''REPORTS'', join_with [CHR 0x0A] (map reportSection (suiteReports s)))]
      else
        renderVars (loadPromptText fs (promptName stage))
          [(''SCOPE'', trim (buildScopePrompt target))])"

definition sendCurrentStagePrompt :: "file_system \<Rightarrow> suite \<Rightarrow> suite \<times> effect list" where
  "sendCurrentStagePrompt fs s =
     (case suiteTarget s of
        None \<Rightarrow> endSuite s ''internal error: missing target''
      | Some target \<Rightarrow>
         (case currentStage s of
            None \<Rightarrow> endSuite s ''done''
          | Some stage \<Rightarrow>
             (if trim (buildStagePrompt fs s target stage) = []
              then endSuite s (''missing prompt template: '' @ promptName stage)
              else (s, updateSuiteStatus s @
                        [SendUserMessage (buildStagePrompt fs s target stage)]))))"

subsection \<open>Reading the agent's answer\<close>

fun partText :: "part \<Rightarrow> string option" where
  "partText (TextPart t) = Some t"
| "partText OtherPart = None"

definition getLastAssistantText :: "message list \<Rightarrow> string" where
  "getLastAssistantText messages =
     (case rev (filter (\<lambda>m. role m = ''assistant'') messages) of
        [] \<Rightarrow> []
      | last_msg # _ \<Rightarrow>
         trim (join_with [CHR 0x0A]
           (List.map_filter partText
              (case content last_msg of Parts ps \<Rightarrow> ps | NotArray \<Rightarrow> []))))"

subsection \<open>The context hook\<close>

text \<open>
  The loop \<open>for (let i = messages.length - 1; i >= 0; i--)\<close> that stops at the first
  message of role user: \<open>scanBack messages n\<close> looks at the indices below \<open>n\<close>, from the
  highest down, and is \<open>- 1\<close> when the loop ends without a hit.
\<close>

fun scanBack :: "message list \<Rightarrow> nat \<Rightarrow> int" where
  "scanBack messages 0 = - 1"
| "scanBack messages (Suc i) =
     (if role (messages ! i) = ''user'' then int i else scanBack messages i)"

definition lastUserIndex :: "message list \<Rightarrow> int" where
  "lastUserIndex messages = scanBack messages (length messages)"

definition captureBoundary :: "suite \<Rightarrow> message list \<Rightarrow> suite" where
  "captureBoundary s messages =
     s\<lparr>suiteBoundaryCount :=
          (if 0 \<le> lastUserIndex messages then lastUserIndex messages
           else suiteBoundaryCount s),
       boundaryNeedsCapture := False\<rparr>"

definition notice :: "int \<Rightarrow> ReviewSuiteStage \<Rightarrow> message" where
  "notice now stage =
     \<lparr>role = ''user'',
      content = Parts [TextPart (''[Review suite stage '' @ label stage @
        ''. Prior stage outputs are intentionally hidden. Review with fresh eyes.]'')],
      timestamp = now\<rparr>"

text \<open>
  The handler of the context event. \<open>ev\<close> is \<open>event.messages\<close> (\<open>None\<close> when it is not
  an array), \<open>now\<close> the value of \<open>Date.now()\<close>. The result is the state after the
  handler and the replacement history, \<open>None\<close> when the handler returns nothing and
  the agent sees the history as it is.
\<close>

definition context_handler ::
  "int \<Rightarrow> suite \<Rightarrow> message list option \<Rightarrow> suite \<times> message list option" where
  "context_handler now s ev =
     (if \<not> suiteActive s \<or> \<not> suiteFreshContext s then (s, None)
      else case currentStage s of
        None \<Rightarrow> (s, None)
      | Some stage \<Rightarrow>
         (if kind stage \<noteq> Review then (s, None)
          else if suiteStageIndex s = 0 then (s, None)
          else case ev of
            None \<Rightarrow> (s, None)
          | Some messages \<Rightarrow>
             (if messages = [] then (s, None)
              else
                let s1 = (if boundaryNeedsCapture s then captureBoundary s messages else s)
                in if suiteBoundaryCount s1 < 0 then (s1, None)
                   else if lastUserIndex messages < 0 then (s1, None)
                   else if lastUserIndex messages \<le> suiteBoundaryCount s1 then (s1, None)
                   else (s1, Some (take (nat (suiteBoundaryCount s1)) messages @
                                   [notice now stage] @
                                   drop (nat (lastUserIndex messages)) messages)))))"

subsection \<open>The agent_end hook\<close>

definition harvest :: "ReviewSuiteStage \<Rightarrow> string \<Rightarrow> suite \<Rightarrow> suite" where
  "harvest stage answer s =
     (if kind stage = Review
      then s\<lparr>suiteReports := suiteReports s @
               [\<lparr>stageId = stage_id stage, stageLabel = label stage,
                 report_text = trim (replaceAll answer STAGE_DONE_MARKER [])\<rparr>]\<rparr>
      else s)"

text \<open>\<open>ev\<close> is \<open>event.messages\<close>, \<open>None\<close> when it is missing.\<close>

definition agent_end :: "file_system \<Rightarrow> suite \<Rightarrow> message list option \<Rightarrow> suite \<times> effect list" where
  "agent_end fs s ev =
     (if \<not> suiteActive s then (s, [])
      else case currentStage s of
        None \<Rightarrow> endSuite s ''done''
      | Some stage \<Rightarrow>
         (let answer = getLastAssistantText (case ev of Some ms \<Rightarrow> ms | None \<Rightarrow> [])
          in if answer = [] then endSuite s ''aborted (no assistant output) ''
             else
               let s1 = harvest stage answer s;
                   s2 = s1\<lparr>suiteStageIndex := suiteStageIndex s1 + 1\<rparr>
               in if int (length DEFAULT_SUITE_STAGES) \<le> suiteStageIndex s2
                  then endSuite s2 ''complete''
                  else sendCurrentStagePrompt fs s2))"

subsection \<open>The input hook\<close>

datatype input_action = Continue | Transform | Handled

definition input_handler ::
  "bool \<Rightarrow> string \<Rightarrow> suite \<Rightarrow> suite \<times> effect list \<times> input_action" where
  "input_handler hasUI source s =
     (if \<not> hasUI then (s, [], Continue)
      else if suiteActive s \<and> source = ''interactive''
        then (fst (endSuite s ''user interrupted''),
              snd (endSuite s ''user interrupted''), Continue)
      else (s, [], Continue))"

subsection \<open>The review command\<close>

text \<open>
  The handler awaits \<open>ctx.isIdle\<close>, \<open>ensureGitRepo\<close> and \<open>resolveTarget\<close> before it
  looks at the suite; none of them touches the suite, so \<open>s\<close> is the state at the
  test of \<open>suiteActive\<close>, and their outcomes are parameters: \<open>isIdle\<close>, \<open>inGitRepo\<close>
  and the target \<open>resolved\<close> (\<open>None\<close> when the picker is cancelled). The
  notifications of the picker itself are not recorded.
\<close>

definition review_command ::
  "file_system \<Rightarrow> bool \<Rightarrow> bool \<Rightarrow> ReviewTarget option \<Rightarrow> suite \<Rightarrow> suite \<times> effect list" where
  "review_command fs isIdle inGitRepo resolved s =
     (if \<not> isIdle then (s, [Notify ''Agent is busy; try again when idle'' ''warning''])
      else if \<not> inGitRepo
        then (s, [Notify ''/review: not inside a git repository'' ''error''])
      else case resolved of
        None \<Rightarrow> (s, [])
      | Some target \<Rightarrow>
         (if suiteActive s
          then (s, [Notify
                  ''A review suite is already running. Type anything to interrupt it.''
                  ''warning''])
          else
            let s1 = \<lparr>suiteActive = True, suiteTarget = Some target, suiteStageIndex = 0,
                      suiteReports = [], suiteFreshContext = True,
                      suiteBoundaryCount = - 1, boundaryNeedsCapture = True\<rparr>
            in (fst (sendCurrentStagePrompt fs s1),
                Notify ''Review started'' ''info'' # snd (sendCurrentStagePrompt fs s1))))"

subsection \<open>Runs of the extension\<close>

text \<open>
  The host delivers one event at a time and each handler runs to its end on the
  suite before the next one: an event is one invocation of a hook or of the command,
  with what the host passes to it, and \<open>handle\<close> is the state after it together with
  the calls made on the host.
\<close>

datatype event =
  Command file_system bool bool "ReviewTarget option"
| Context int "message list option"
| AgentEnd file_system "message list option"
| Input bool string

fun handle :: "event \<Rightarrow> suite \<Rightarrow> suite \<times> effect list" where
  "handle (Command fs isIdle inGitRepo resolved) s = review_command fs isIdle inGitRepo resolved s"
| "handle (Context now ev) s = (fst (context_handler now s ev), [])"
| "handle (AgentEnd fs ev) s = agent_end fs s ev"
| "handle (Input hasUI source) s =
     (fst (input_handler hasUI source s), fst (snd (input_handler hasUI source s)))"

text \<open>
  A state is reachable when a sequence of events leads to it from the state the
  extension is loaded with.
\<close>

inductive reachable :: "suite \<Rightarrow> bool" where
  r_init: "reachable initial_suite"
| r_step: "reachable s \<Longrightarrow> reachable (fst (handle e s))"

definition run :: "event list \<Rightarrow> suite" where
  "run es = foldl (\<lambda>s e. fst (handle e s)) initial_suite es"

text \<open>
  The shape of the suite between two handlers: freshness is never switched off, an
  inactive suite is the initial one, and an active one has a target, a stage of the
  pipeline and one report for each stage before it.
\<close>

definition stage_tags :: "nat \<Rightarrow> (string \<times> string) list" where
  "stage_tags n = map (\<lambda>st. (stage_id st, label st)) (take n DEFAULT_SUITE_STAGES)"

definition suite_inv :: "suite \<Rightarrow> bool" where
  "suite_inv s \<longleftrightarrow>
     suiteFreshContext s \<and>
     (if suiteActive s
      then suiteTarget s \<noteq> None \<and> 0 \<le> suiteStageIndex s \<and> suiteStageIndex s < 4 \<and>
           map (\<lambda>r. (stageId r, stageLabel r)) (suiteReports s) =
             stage_tags (nat (suiteStageIndex s))
      else s = initial_suite)"

section \<open>A sample installation and a sample run\<close>

text \<open>
  Packaged templates with a metadata block, as the ones under \<open>prompts/\<close>, and no
  user override.
\<close>

definition sample_review_template :: string where
  "sample_review_template =
     ''---\<newline>description: review pass\<newline>---\<newline>'' @
     ''{{SCOPE}}\<newline>\<newline>'' @
     ''End your response with:\<newline>[[PI_REVIEW_STAGE_DONE]]\<newline>''"

definition sample_synthesize_template :: string where
  "sample_synthesize_template =
     ''---\<newline>description: synthesis\<newline>---\<newline>'' @
     ''Inputs:\<newline>{{REPORTS}}\<newline>\<newline>Output a single Markdown review.\<newline>''"

definition sample_fs :: file_system where
  "sample_fs =
     \<lparr>userPrompts = (\<lambda>_. None),
      pkgPrompts = [''review-overall.md'' \<mapsto> sample_review_template,
                    ''review-linus.md'' \<mapsto> sample_review_template,
                    ''review-staff.md'' \<mapsto> sample_review_template,
                    ''review-synthesize.md'' \<mapsto> sample_synthesize_template]\<rparr>"

definition assistant_says :: "string \<Rightarrow> message" where
  "assistant_says t = \<lparr>role = ''assistant'', content = Parts [TextPart t], timestamp = 0\<rparr>"

definition user_says :: "string \<Rightarrow> message" where
  "user_says t = \<lparr>role = ''user'', content = Parts [TextPart t], timestamp = 0\<rparr>"

definition sample_answer :: message where
  "sample_answer = assistant_says ''No blockers.\<newline>[[PI_REVIEW_STAGE_DONE]]''"

definition started :: suite where
  "started = run [Command sample_fs True True (Some Staged)]"

definition after_turns :: "nat \<Rightarrow> suite" where
  "after_turns n =
     run (Command sample_fs True True (Some Staged) #
          replicate n (AgentEnd sample_fs (Some [sample_answer])))"

definition empty_fs :: file_system where
  "empty_fs = \<lparr>userPrompts = (\<lambda>_. None), pkgPrompts = (\<lambda>_. None)\<rparr>"

text \<open>
  A conversation for a whole run on the staged changes: two turns before the suite,
  then the prompt of each stage as the suite sends it and the answer of the agent.
\<close>

definition pre_suite :: "message list" where
  "pre_suite =
     [user_says ''Please look at my staged changes.'',
      assistant_says ''Tell me when to start.'']"

definition stage_prompt_text :: "nat \<Rightarrow> string" where
  "stage_prompt_text k =
     buildStagePrompt sample_fs initial_suite Staged (DEFAULT_SUITE_STAGES ! k)"

definition stage_prompt :: "nat \<Rightarrow> message" where
  "stage_prompt k = user_says (stage_prompt_text k)"

definition answer_1 :: message where
  "answer_1 = assistant_says ''Overall: one blocker.\<newline>[[PI_REVIEW_STAGE_DONE]]''"

definition answer_2 :: message where
  "answer_2 = assistant_says ''Linus: too clever.\<newline>[[PI_REVIEW_STAGE_DONE]]''"

definition history_0 :: "message list" where
  "history_0 = pre_suite @ [stage_prompt 0]"

definition history_1 :: "message list" where
  "history_1 = history_0 @ [answer_1, stage_prompt 1]"

definition history_2 :: "message list" where
  "history_2 = history_1 @ [answer_2, stage_prompt 2]"

definition review_events :: "event list" where
  "review_events =
     [Command sample_fs True True (Some Staged),
      Context 7 (Some history_0),
      AgentEnd sample_fs (Some (history_0 @ [answer_1])),
      Context 7 (Some history_1),
      AgentEnd sample_fs (Some (history_1 @ [answer_2]))]"

text \<open>The same installation with the template of the synthesis missing.\<close>

definition fs_without_synthesis :: file_system where
  "fs_without_synthesis =
     \<lparr>userPrompts = (\<lambda>_. None),
      pkgPrompts = [''review-overall.md'' \<mapsto> sample_review_template,
                    ''review-linus.md'' \<mapsto> sample_review_template,
                    ''review-staff.md'' \<mapsto> sample_review_template]\<rparr>"

text \<open>The suite after the ends of some turns in a row, each with its messages.\<close>

definition turns :: "file_system \<Rightarrow> suite \<Rightarrow> message list list \<Rightarrow> suite" where
  "turns fs s answers = foldl (\<lambda>s ms. fst (agent_end fs s (Some ms))) s answers"

text \<open>A text in which the replacement patterns of \<open>replaceAll\<close> find nothing to read.\<close>

definition plain_text :: "string \<Rightarrow> bool" where
  "plain_text w \<longleftrightarrow> list_all (\<lambda>c. c \<notin> {CHR 0x24, CHR 0x26, CHR 0x60, CHR 0x27}) w"

text \<open>What the teardown of a run leaves: the initial suite, the status cleared, the reason notified.\<close>

definition torn_down :: "string \<Rightarrow> suite \<times> effect list" where
  "torn_down reason =
     (initial_suite, [SetStatus None, Notify (''Review suite ended: '' @ reason) ''info''])"

definition marked_answer :: message where
  "marked_answer =
     assistant_says
       ''Fix [[PI_REVIEW_STAGE_DONE]]this.\<newline>[[PI_REVIEW_STAGE_DONE]]\<newline>''"

text \<open>
  A text has no border when no proper non-empty prefix of it is also a suffix of it;
  two occurrences of such a text in another never overlap.
\<close>

definition unbordered :: "string \<Rightarrow> bool" where
  "unbordered pat \<longleftrightarrow>
     list_all (\<lambda>n. take n pat \<noteq> drop (length pat - n) pat) [1..<length pat]"

section \<open>Basic facts\<close>

lemma stages_length: "length DEFAULT_SUITE_STAGES = 4"
  by (simp add: DEFAULT_SUITE_STAGES_def)

lemma updateSuiteStatus_inactive: "\<not> suiteActive s \<Longrightarrow> updateSuiteStatus s = [SetStatus None]"
  by (simp add: updateSuiteStatus_def)

lemma endSuite_effects:
  "snd (endSuite s reason) = [SetStatus None, Notify (''Review suite ended: '' @ reason) ''info'']"
  by (simp add: endSuite_def Let_def updateSuiteStatus_def)

lemma endSuite_state:
  "fst (endSuite s reason) =
     s\<lparr>suiteActive := False, suiteTarget := None, suiteStageIndex := 0,
       suiteReports := [], suiteBoundaryCount := - 1, boundaryNeedsCapture := False\<rparr>"
  by (simp add: endSuite_def Let_def)

lemma endSuite_fresh:
  "suiteFreshContext s \<Longrightarrow> fst (endSuite s reason) = initial_suite"
  by (simp add: endSuite_state initial_suite_def)

lemma inv_initial: "suite_inv initial_suite"
  by (simp add: suite_inv_def initial_suite_def)

lemma inv_endSuite: "suiteFreshContext s \<Longrightarrow> suite_inv (fst (endSuite s reason))"
  by (simp add: endSuite_fresh inv_initial)

lemma sendCurrentStagePrompt_cases:
  "fst (sendCurrentStagePrompt fs s) = s \<or>
   (\<exists>reason. sendCurrentStagePrompt fs s = endSuite s reason)"
  by (auto simp: sendCurrentStagePrompt_def split: option.splits)

lemma inv_fresh: "suite_inv s \<Longrightarrow> suiteFreshContext s"
  by (simp add: suite_inv_def)

lemma inv_send: "suite_inv s \<Longrightarrow> suite_inv (fst (sendCurrentStagePrompt fs s))"
  using sendCurrentStagePrompt_cases [of fs s] inv_endSuite [OF inv_fresh, of s]
  by auto

lemma inv_command: "suite_inv s \<Longrightarrow> suite_inv (fst (review_command fs a b r s))"
proof -
  assume i: "suite_inv s"
  have fresh: "suite_inv \<lparr>suiteActive = True, suiteTarget = Some t, suiteStageIndex = 0,
                      suiteReports = [], suiteFreshContext = True,
                      suiteBoundaryCount = - 1, boundaryNeedsCapture = True\<rparr>" for t
    by (simp add: suite_inv_def stage_tags_def)
  show ?thesis
    using i fresh by (auto simp: review_command_def Let_def inv_send split: option.splits)
qed

lemma inv_context: "suite_inv s \<Longrightarrow> suite_inv (fst (context_handler now s ev))"
  by (auto simp: context_handler_def Let_def captureBoundary_def suite_inv_def
           split: option.splits)

lemma inv_input: "suite_inv s \<Longrightarrow> suite_inv (fst (input_handler u src s))"
  using inv_endSuite [OF inv_fresh, of s] by (simp add: input_handler_def)

lemma currentStage_Some:
  "currentStage s = Some st \<Longrightarrow> 0 \<le> suiteStageIndex s \<and> suiteStageIndex s < 4 \<and>
     st = DEFAULT_SUITE_STAGES ! nat (suiteStageIndex s)"
  by (auto simp: currentStage_def stages_length split: if_splits)

lemma inv_harvest:
  assumes "suite_inv s" "suiteActive s" "currentStage s = Some st" "suiteStageIndex s < 3"
  shows "suite_inv ((harvest st a s)\<lparr>suiteStageIndex := suiteStageIndex s + 1\<rparr>)"
proof -
  from assms have "suiteStageIndex s = 0 \<or> suiteStageIndex s = 1 \<or> suiteStageIndex s = 2"
    by (auto simp: suite_inv_def)
  then show ?thesis
    using assms
    by (auto simp: suite_inv_def harvest_def currentStage_def stage_tags_def
                   DEFAULT_SUITE_STAGES_def)
qed

lemma harvest_fields [simp]:
  "suiteStageIndex (harvest st a s) = suiteStageIndex s"
  "suiteFreshContext (harvest st a s) = suiteFreshContext s"
  "suiteActive (harvest st a s) = suiteActive s"
  "suiteTarget (harvest st a s) = suiteTarget s"
  "suiteBoundaryCount (harvest st a s) = suiteBoundaryCount s"
  "boundaryNeedsCapture (harvest st a s) = boundaryNeedsCapture s"
  by (simp_all add: harvest_def)

lemma inv_currentStage:
  "suite_inv s \<Longrightarrow> suiteActive s \<Longrightarrow>
     currentStage s = Some (DEFAULT_SUITE_STAGES ! nat (suiteStageIndex s))"
  by (simp add: suite_inv_def currentStage_def stages_length)

lemma inv_agent_end: "suite_inv s \<Longrightarrow> suite_inv (fst (agent_end fs s ev))"
proof (cases "suiteActive s")
  case False
  assume "suite_inv s"
  with False show ?thesis by (simp add: agent_end_def)
next
  case True
  assume i: "suite_inv s"
  define st where "st = DEFAULT_SUITE_STAGES ! nat (suiteStageIndex s)"
  define a where "a = getLastAssistantText (case ev of Some ms \<Rightarrow> ms | None \<Rightarrow> [])"
  have cs: "currentStage s = Some st"
    using inv_currentStage [OF i True] by (simp add: st_def)
  have fr: "suiteFreshContext s" using i by (rule inv_fresh)
  show ?thesis
  proof (cases "a = []")
    case True
    then have "agent_end fs s ev = endSuite s ''aborted (no assistant output) ''"
      using \<open>suiteActive s\<close> cs by (simp add: agent_end_def a_def)
    then show ?thesis using inv_endSuite [OF fr] by simp
  next
    case False
    note ne = this
    define s2 where "s2 = (harvest st a s)\<lparr>suiteStageIndex := suiteStageIndex s + 1\<rparr>"
    show ?thesis
    proof (cases "suiteStageIndex s < 3")
      case True
      then have "agent_end fs s ev = sendCurrentStagePrompt fs s2"
        using \<open>suiteActive s\<close> cs ne
        by (simp add: agent_end_def a_def [symmetric] Let_def s2_def stages_length)
      moreover have "suite_inv s2"
        unfolding s2_def using i \<open>suiteActive s\<close> cs True by (rule inv_harvest)
      ultimately show ?thesis by (simp add: inv_send)
    next
      case False
      then have "agent_end fs s ev = endSuite s2 ''complete''"
        using \<open>suiteActive s\<close> cs ne
        by (simp add: agent_end_def a_def [symmetric] Let_def s2_def stages_length)
      moreover have "suiteFreshContext s2" using fr by (simp add: s2_def)
      ultimately show ?thesis using inv_endSuite [of s2] by simp
    qed
  qed
qed

lemma inv_handle: "suite_inv s \<Longrightarrow> suite_inv (fst (handle e s))"
  by (cases e) (simp_all add: inv_command inv_context inv_agent_end inv_input)

lemma reachable_inv: "reachable s \<Longrightarrow> suite_inv s"
  by (induction rule: reachable.induct) (simp_all add: inv_initial inv_handle)

lemma reachable_foldl:
  "reachable s \<Longrightarrow> reachable (foldl (\<lambda>s e. fst (handle e s)) s es)"
  by (induction es arbitrary: s) (simp_all add: r_step)

lemma reachable_run: "reachable (run es)"
  by (simp add: run_def reachable_foldl r_init)

lemma endSuite_eq:
  "suiteFreshContext s \<Longrightarrow>
     endSuite s reason =
       (initial_suite, [SetStatus None, Notify (''Review suite ended: '' @ reason) ''info''])"
  using endSuite_fresh [of s reason] endSuite_effects [of s reason]
  by (simp add: prod_eq_iff)

lemma inv_inactive: "suite_inv s \<Longrightarrow> \<not> suiteActive s \<Longrightarrow> s = initial_suite"
  by (simp add: suite_inv_def)

lemma inv_reports:
  "suite_inv s \<Longrightarrow> suiteActive s \<Longrightarrow>
     map (\<lambda>r. (stageId r, stageLabel r)) (suiteReports s) = stage_tags (nat (suiteStageIndex s))"
  by (simp add: suite_inv_def)

lemma inv_index: "suite_inv s \<Longrightarrow> suiteActive s \<Longrightarrow> 0 \<le> suiteStageIndex s \<and> suiteStageIndex s < 4"
  by (simp add: suite_inv_def)

lemma context_active [simp]:
  "suiteActive (fst (context_handler now s ev)) = suiteActive s"
  by (auto simp: context_handler_def Let_def captureBoundary_def split: option.splits)

lemma send_cases:
  assumes "suiteFreshContext s"
  shows "(\<exists>reason. sendCurrentStagePrompt fs s = endSuite s reason) \<or>
         (fst (sendCurrentStagePrompt fs s) = s)"
  by (auto simp: sendCurrentStagePrompt_def split: option.splits)

lemma agent_end_cases:
  assumes "suite_inv s" "suiteActive s"
  shows "(\<exists>s' reason. agent_end fs s ev = endSuite s' reason \<and> suiteFreshContext s') \<or>
         suiteActive (fst (agent_end fs s ev))"
proof -
  define st where "st = DEFAULT_SUITE_STAGES ! nat (suiteStageIndex s)"
  define a where "a = getLastAssistantText (case ev of Some ms \<Rightarrow> ms | None \<Rightarrow> [])"
  define s2 where "s2 = (harvest st a s)\<lparr>suiteStageIndex := suiteStageIndex s + 1\<rparr>"
  have cs: "currentStage s = Some st"
    using inv_currentStage [OF assms] by (simp add: st_def)
  have fr: "suiteFreshContext s" using assms(1) by (rule inv_fresh)
  have fr2: "suiteFreshContext s2" using fr by (simp add: s2_def)
  have act2: "suiteActive s2" using assms(2) by (simp add: s2_def)
  consider (empty) "a = []" | (last) "a \<noteq> []" "4 \<le> suiteStageIndex s + 1"
    | (more) "a \<noteq> []" "suiteStageIndex s + 1 < 4" by linarith
  then show ?thesis
  proof cases
    case empty
    then have "agent_end fs s ev = endSuite s ''aborted (no assistant output) ''"
      using assms(2) cs by (simp add: agent_end_def a_def)
    then show ?thesis using fr by blast
  next
    case last
    then have "agent_end fs s ev = endSuite s2 ''complete''"
      using assms(2) cs by (simp add: agent_end_def a_def [symmetric] Let_def s2_def stages_length)
    then show ?thesis using fr2 by blast
  next
    case more
    then have eq: "agent_end fs s ev = sendCurrentStagePrompt fs s2"
      using assms(2) cs by (simp add: agent_end_def a_def [symmetric] Let_def s2_def stages_length)
    from send_cases [OF fr2, of fs] show ?thesis
    proof
      assume "\<exists>reason. sendCurrentStagePrompt fs s2 = endSuite s2 reason"
      then show ?thesis using eq fr2 by auto
    next
      assume "fst (sendCurrentStagePrompt fs s2) = s2"
      then show ?thesis using eq act2 by simp
    qed
  qed
qed

lemma no_assistant_text:
  "\<forall>m\<in>set ms. role m \<noteq> ''assistant'' \<Longrightarrow> getLastAssistantText ms = []"
proof -
  assume "\<forall>m\<in>set ms. role m \<noteq> ''assistant''"
  then have "filter (\<lambda>m. role m = ''assistant'') ms = []"
    by (simp add: filter_empty_conv)
  then show ?thesis by (simp add: getLastAssistantText_def)
qed

lemma replaceAll_empty: "pat \<noteq> [] \<Longrightarrow> replaceAll [] pat v = []"
  by (simp add: replaceAll_def)

lemma buildStagePrompt_empty:
  "loadPromptText fs (promptName stage) = [] \<Longrightarrow> buildStagePrompt fs s target stage = []"
  by (simp add: buildStagePrompt_def replaceAll_empty)

lemma trim_Nil [simp]: "trim [] = []"
  by (simp add: trim_def)

subsection \<open>Removing the end-of-stage marker\<close>

lemma replaceAll_from_prefix:
  "pat \<noteq> [] \<Longrightarrow> prefix pat s \<Longrightarrow>
     replaceAll_from pat rep pre s =
       getSubstitution pat pre (drop (length pat) s) rep @
       replaceAll_from pat rep (pre @ pat) (drop (length pat) s)"
  by (cases s) simp_all

lemma replaceAll_from_step:
  "pat \<noteq> [] \<Longrightarrow> \<not> prefix pat (c # cs) \<Longrightarrow>
     replaceAll_from pat rep pre (c # cs) = c # replaceAll_from pat rep (pre @ [c]) cs"
  by simp

lemma remove_absent:
  "pat \<noteq> [] \<Longrightarrow> \<not> sublist pat s \<Longrightarrow> replaceAll_from pat [] pre s = s"
proof (induction s arbitrary: pre)
  case Nil
  then show ?case by simp
next
  case (Cons c cs)
  from Cons.prems(2) have np: "\<not> prefix pat (c # cs)" and ns: "\<not> sublist pat cs"
    by (simp_all add: sublist_Cons_right)
  show ?case
    using Cons.IH [OF Cons.prems(1) ns] Cons.prems(1) np by simp
qed

lemma unbordered_no_overlap:
  assumes "unbordered m" and "\<not> sublist m a" and "a \<noteq> []"
  shows "\<not> prefix m (a @ m @ b)"
proof
  assume "prefix m (a @ m @ b)"
  then consider "prefix m a" | us where "m = a @ us" "prefix us (m @ b)"
    using prefix_append [of m a "m @ b"] by blast
  then show False
  proof cases
    case 1
    then obtain zs where "a = m @ zs" unfolding prefix_def by blast
    then have "sublist m a" by simp
    then show False using assms(2) by simp
  next
    case 2
    define n where "n = length us"
    have len: "length m = length a + n"
      using arg_cong [OF 2(1), of length] by (simp add: n_def)
    have "us \<noteq> []"
    proof
      assume "us = []"
      then have "m = a" using 2(1) by simp
      then show False using assms(2) by simp
    qed
    then have n0: "0 < n" by (simp add: n_def)
    have n1: "n < length m" using assms(3) len by simp
    have "prefix us m"
    proof -
      from prefix_append [of us m b] 2(2)
      consider "prefix us m" | vs where "us = m @ vs" by blast
      then show ?thesis
      proof cases
        case 1
        then show ?thesis .
      next
        case 2
        then have "length m \<le> n" by (simp add: n_def)
        then show ?thesis using n1 by simp
      qed
    qed
    then obtain ws where ws: "m = us @ ws" unfolding prefix_def by blast
    have t: "take n m = us"
      using arg_cong [OF ws, of "take n"] by (simp add: n_def)
    have "drop (length a) m = us"
      using arg_cong [OF 2(1), of "drop (length a)"] by simp
    moreover have "length m - n = length a" using len by simp
    ultimately have d: "drop (length m - n) m = us" by simp
    have "n \<in> set [1..<length m]" using n0 n1 by simp
    then have "take n m \<noteq> drop (length m - n) m"
      using assms(1) unfolding unbordered_def list_all_iff by blast
    then show False using t d by simp
  qed
qed

lemma remove_first:
  assumes "unbordered m" and "m \<noteq> []" and "\<not> sublist m a"
  shows "replaceAll_from m [] pre (a @ m @ b) = a @ replaceAll_from m [] (pre @ a @ m) b"
  using assms(3)
proof (induction a arbitrary: pre)
  case Nil
  show ?case using replaceAll_from_prefix [OF assms(2), of "m @ b" "[]" pre] by simp
next
  case (Cons c cs)
  have ns: "\<not> sublist m cs" using Cons.prems by (simp add: sublist_Cons_right)
  have np: "\<not> prefix m (c # (cs @ m @ b))"
    using unbordered_no_overlap [OF assms(1) Cons.prems, of b] by simp
  show ?case
    using Cons.IH [OF ns, of "pre @ [c]"] replaceAll_from_step [OF assms(2) np, of "[]" pre]
    by simp
qed

lemma remove_join:
  "unbordered m \<Longrightarrow> m \<noteq> [] \<Longrightarrow> \<forall>p\<in>set ps. \<not> sublist m p \<Longrightarrow>
     replaceAll_from m [] pre (join_with m ps) = concat ps"
proof (induction m ps arbitrary: pre rule: join_with.induct)
  case (1 sep)
  then show ?case by simp
next
  case (2 sep x)
  then show ?case using remove_absent [of sep x pre] by simp
next
  case (3 sep x y ys)
  have nx: "\<not> sublist sep x" and rest: "\<forall>p\<in>set (y # ys). \<not> sublist sep p"
    using "3.prems"(3) by simp_all
  have "replaceAll_from sep [] pre (x @ sep @ join_with sep (y # ys)) =
          x @ replaceAll_from sep [] (pre @ x @ sep) (join_with sep (y # ys))"
    using "3.prems"(1,2) nx by (rule remove_first)
  also have "replaceAll_from sep [] (pre @ x @ sep) (join_with sep (y # ys)) = concat (y # ys)"
    using "3.prems"(1,2) rest by (rule "3.IH")
  finally show ?case by simp
qed

lemma marker_nonempty: "STAGE_DONE_MARKER \<noteq> []"
  by (simp add: STAGE_DONE_MARKER_def)

lemma marker_unbordered: "unbordered STAGE_DONE_MARKER"
  by code_simp

lemma first_occurrence:
  "m \<noteq> [] \<Longrightarrow> sublist m s \<Longrightarrow> \<exists>a b. s = a @ m @ b \<and> \<not> sublist m a"
proof (induction s)
  case Nil
  then show ?case by simp
next
  case (Cons c cs)
  show ?case
  proof (cases "prefix m (c # cs)")
    case True
    then obtain b where "c # cs = m @ b" unfolding prefix_def by blast
    then have "c # cs = [] @ m @ b \<and> \<not> sublist m []" using Cons.prems(1) by simp
    then show ?thesis by blast
  next
    case False
    then have "sublist m cs" using Cons.prems(2) by (simp add: sublist_Cons_right)
    from Cons.IH [OF Cons.prems(1) this] obtain a b
      where ab: "cs = a @ m @ b" and na: "\<not> sublist m a" by blast
    have "\<not> prefix m (c # a)"
    proof
      assume "prefix m (c # a)"
      then have "prefix m ((c # a) @ m @ b)" by (rule prefix_prefix)
      then show False using False ab by simp
    qed
    then have "\<not> sublist m (c # a)" using na by (simp add: sublist_Cons_right)
    moreover have "c # cs = (c # a) @ m @ b" using ab by simp
    ultimately show ?thesis by blast
  qed
qed

lemma join_with_Cons: "qs \<noteq> [] \<Longrightarrow> join_with m (a # qs) = a @ m @ join_with m qs"
  by (cases qs) simp_all

lemma pieces_exist:
  "m \<noteq> [] \<Longrightarrow> \<exists>ps. ps \<noteq> [] \<and> s = join_with m ps \<and> (\<forall>p\<in>set ps. \<not> sublist m p)"
proof (induction s rule: length_induct)
  case (1 s)
  show ?case
  proof (cases "sublist m s")
    case False
    then have "[s] \<noteq> [] \<and> s = join_with m [s] \<and> (\<forall>p\<in>set [s]. \<not> sublist m p)" by simp
    then show ?thesis by blast
  next
    case True
    from first_occurrence [OF "1.prems" True] obtain a b
      where ab: "s = a @ m @ b" and na: "\<not> sublist m a" by blast
    have "length b < length s" using ab "1.prems" by simp
    with "1.IH" "1.prems" obtain qs
      where qs: "qs \<noteq> []" "b = join_with m qs" "\<forall>p\<in>set qs. \<not> sublist m p" by blast
    have "s = join_with m (a # qs)" using ab qs(1,2) by (simp add: join_with_Cons)
    moreover have "\<forall>p\<in>set (a # qs). \<not> sublist m p" using na qs(3) by simp
    ultimately show ?thesis by blast
  qed
qed

lemma strip_marker:
  "\<forall>p\<in>set pieces. \<not> sublist STAGE_DONE_MARKER p \<Longrightarrow>
     replaceAll (join_with STAGE_DONE_MARKER pieces) STAGE_DONE_MARKER [] = concat pieces"
  unfolding replaceAll_def
  using marker_unbordered marker_nonempty by (rule remove_join)

lemma review_stage_index:
  assumes "currentStage s = Some st" and "kind st = Review"
  shows "suiteStageIndex s + 1 < 4"
proof -
  from currentStage_Some [OF assms(1)]
  have idx: "0 \<le> suiteStageIndex s" "suiteStageIndex s < 4"
    and st: "st = DEFAULT_SUITE_STAGES ! nat (suiteStageIndex s)" by simp_all
  have "suiteStageIndex s \<noteq> 3"
  proof
    assume "suiteStageIndex s = 3"
    then have "kind st = Synthesize" using st by (simp add: DEFAULT_SUITE_STAGES_def)
    then show False using assms(2) by simp
  qed
  then show ?thesis using idx by simp
qed

lemma endSuite_inactive: "\<not> suiteActive (fst (endSuite s reason))"
  by (simp add: endSuite_state)

subsection \<open>The ways a run ends\<close>

lemma endSuite_torn_down: "suiteFreshContext s \<Longrightarrow> endSuite s reason = torn_down reason"
  by (simp add: endSuite_eq torn_down_def)

lemma turn_completes:
  assumes "suite_inv s" and "suiteActive s" and "4 \<le> suiteStageIndex s + 1"
    and "getLastAssistantText ms \<noteq> []"
  shows "agent_end fs s (Some ms) = torn_down ''complete''"
proof -
  define st where "st = DEFAULT_SUITE_STAGES ! nat (suiteStageIndex s)"
  define s2 where
    "s2 = (harvest st (getLastAssistantText ms) s)\<lparr>suiteStageIndex := suiteStageIndex s + 1\<rparr>"
  have cs: "currentStage s = Some st"
    using inv_currentStage [OF assms(1,2)] by (simp add: st_def)
  have "agent_end fs s (Some ms) = endSuite s2 ''complete''"
    using assms(2,3,4) cs by (simp add: agent_end_def Let_def s2_def stages_length)
  moreover have "suiteFreshContext s2" using inv_fresh [OF assms(1)] by (simp add: s2_def)
  ultimately show ?thesis by (simp add: endSuite_torn_down)
qed

lemma turn_aborts:
  assumes "suite_inv s" and "suiteActive s" and "getLastAssistantText ms = []"
  shows "agent_end fs s (Some ms) = torn_down ''aborted (no assistant output) ''"
proof -
  obtain st where cs: "currentStage s = Some st"
    using inv_currentStage [OF assms(1,2)] by blast
  have "agent_end fs s (Some ms) = endSuite s ''aborted (no assistant output) ''"
    using assms(2,3) cs by (simp add: agent_end_def)
  then show ?thesis using inv_fresh [OF assms(1)] by (simp add: endSuite_torn_down)
qed

lemma turn_missing_template:
  assumes "suite_inv s" and "suiteActive s" and "getLastAssistantText ms \<noteq> []"
    and "suiteStageIndex s + 1 < 4"
    and "loadPromptText fs (promptName (DEFAULT_SUITE_STAGES ! nat (suiteStageIndex s + 1))) = []"
  shows "agent_end fs s (Some ms) =
           torn_down (''missing prompt template: '' @
             promptName (DEFAULT_SUITE_STAGES ! nat (suiteStageIndex s + 1)))"
proof -
  define st where "st = DEFAULT_SUITE_STAGES ! nat (suiteStageIndex s)"
  define st' where "st' = DEFAULT_SUITE_STAGES ! nat (suiteStageIndex s + 1)"
  define s2 where
    "s2 = (harvest st (getLastAssistantText ms) s)\<lparr>suiteStageIndex := suiteStageIndex s + 1\<rparr>"
  have cs: "currentStage s = Some st"
    using inv_currentStage [OF assms(1,2)] by (simp add: st_def)
  have idx: "0 \<le> suiteStageIndex s" using inv_index [OF assms(1,2)] by simp
  have cs2: "currentStage s2 = Some st'"
    using idx assms(4) by (simp add: currentStage_def stages_length s2_def st'_def)
  obtain t where t: "suiteTarget s2 = Some t"
    using assms(1,2) by (auto simp: suite_inv_def s2_def)
  have fr: "suiteFreshContext s2" using inv_fresh [OF assms(1)] by (simp add: s2_def)
  have "agent_end fs s (Some ms) = sendCurrentStagePrompt fs s2"
    using assms(2,3,4) cs by (simp add: agent_end_def Let_def s2_def stages_length)
  also have "\<dots> = endSuite s2 (''missing prompt template: '' @ promptName st')"
    using t cs2 assms(5)
    by (simp add: sendCurrentStagePrompt_def buildStagePrompt_empty st'_def)
  finally show ?thesis using fr by (simp add: endSuite_torn_down st'_def)
qed

lemma start_missing_template:
  assumes "\<not> suiteActive s" and "loadPromptText fs ''review-overall'' = []"
  shows "review_command fs True True (Some target) s =
           (initial_suite,
            Notify ''Review started'' ''info'' #
            snd (torn_down ''missing prompt template: review-overall''))"
proof -
  define s1 where
    "s1 = \<lparr>suiteActive = True, suiteTarget = Some target, suiteStageIndex = 0,
            suiteReports = [], suiteFreshContext = True,
            suiteBoundaryCount = - 1, boundaryNeedsCapture = True\<rparr>"
  define st where "st = DEFAULT_SUITE_STAGES ! 0"
  have cs: "currentStage s1 = Some st"
    by (simp add: currentStage_def stages_length s1_def st_def)
  have pn: "promptName st = ''review-overall''"
    by (simp add: st_def DEFAULT_SUITE_STAGES_def)
  have t: "suiteTarget s1 = Some target" by (simp add: s1_def)
  have bp: "buildStagePrompt fs s1 target st = []"
    using assms(2) pn by (simp add: buildStagePrompt_empty)
  have "sendCurrentStagePrompt fs s1 = endSuite s1 (''missing prompt template: '' @ promptName st)"
    by (simp add: sendCurrentStagePrompt_def t cs bp)
  moreover have "suiteFreshContext s1" by (simp add: s1_def)
  ultimately have "sendCurrentStagePrompt fs s1 =
                     torn_down ''missing prompt template: review-overall''"
    using pn by (simp add: endSuite_torn_down)
  then show ?thesis
    using assms(1) by (simp add: review_command_def Let_def s1_def [symmetric] torn_down_def)
qed

lemma interrupt_tears_down:
  assumes "suiteFreshContext s" and "suiteActive s"
  shows "input_handler True ''interactive'' s =
           (initial_suite, snd (torn_down ''user interrupted''), Continue)"
  using assms endSuite_torn_down [OF assms(1), of "''user interrupted''"]
  by (simp add: input_handler_def torn_down_def)

lemma defensive_teardowns:
  assumes "suiteFreshContext s'"
  shows "suiteTarget s' = None \<longrightarrow>
           sendCurrentStagePrompt fs s' = torn_down ''internal error: missing target''"
    and "suiteTarget s' \<noteq> None \<and> currentStage s' = None \<longrightarrow>
           sendCurrentStagePrompt fs s' = torn_down ''done''"
    and "suiteActive s' \<and> currentStage s' = None \<longrightarrow> agent_end fs s' ev = torn_down ''done''"
  using endSuite_torn_down [OF assms]
  by (auto simp: sendCurrentStagePrompt_def agent_end_def)

lemma inactive_step:
  assumes "suite_inv s" and "\<not> suiteActive (fst (handle e s))"
  shows "fst (handle e s) = initial_suite"
    and "suiteActive s \<longrightarrow> (\<exists>reason. handle e s = torn_down reason)"
    and "\<not> suiteActive s \<and> Notify ''Review started'' ''info'' \<in> set (snd (handle e s)) \<longrightarrow>
           (\<exists>reason. snd (handle e s) =
              Notify ''Review started'' ''info'' # snd (torn_down reason))"
proof -
  have fr: "suiteFreshContext s" using assms(1) by (rule inv_fresh)
  show "fst (handle e s) = initial_suite"
    using inv_handle [OF assms(1), of e] assms(2) by (rule inv_inactive)
  show "suiteActive s \<longrightarrow> (\<exists>reason. handle e s = torn_down reason)"
  proof
    assume act: "suiteActive s"
    have "\<exists>s' reason. handle e s = endSuite s' reason \<and> suiteFreshContext s'"
    proof (cases e)
      case (Command fs a b r)
      then have "fst (handle e s) = s" using act
        by (simp add: review_command_def split: option.splits)
      then show ?thesis using assms(2) act by simp
    next
      case (Context now ev)
      then show ?thesis using assms(2) act by simp
    next
      case (AgentEnd fs ev)
      then show ?thesis using agent_end_cases [OF assms(1) act, of fs ev] assms(2) by auto
    next
      case (Input hasUI source)
      show ?thesis
      proof (cases "hasUI \<and> source = ''interactive''")
        case True
        then have "handle e s = endSuite s ''user interrupted''"
          using Input act by (simp add: input_handler_def)
        then show ?thesis using fr by blast
      next
        case False
        then have "fst (handle e s) = s" using Input by (auto simp: input_handler_def)
        then show ?thesis using assms(2) act by simp
      qed
    qed
    then show "\<exists>reason. handle e s = torn_down reason"
      using endSuite_torn_down by metis
  qed
  show "\<not> suiteActive s \<and> Notify ''Review started'' ''info'' \<in> set (snd (handle e s)) \<longrightarrow>
           (\<exists>reason. snd (handle e s) =
              Notify ''Review started'' ''info'' # snd (torn_down reason))"
  proof
    assume "\<not> suiteActive s \<and> Notify ''Review started'' ''info'' \<in> set (snd (handle e s))"
    then have na: "\<not> suiteActive s"
      and a: "Notify ''Review started'' ''info'' \<in> set (snd (handle e s))" by simp_all
    show "\<exists>reason. snd (handle e s) = Notify ''Review started'' ''info'' # snd (torn_down reason)"
    proof (cases e)
      case (Command fs isIdle inGitRepo resolved)
      define target where "target = the resolved"
      define s1 where
        "s1 = \<lparr>suiteActive = True, suiteTarget = Some target, suiteStageIndex = 0,
                suiteReports = [], suiteFreshContext = True,
                suiteBoundaryCount = - 1, boundaryNeedsCapture = True\<rparr>"
      have started: "isIdle \<and> inGitRepo \<and> resolved = Some target"
        using a na Command
        by (auto simp: review_command_def target_def split: option.splits if_splits)
      then have h: "handle e s =
                   (fst (sendCurrentStagePrompt fs s1),
                    Notify ''Review started'' ''info'' # snd (sendCurrentStagePrompt fs s1))"
        using na Command by (simp add: review_command_def Let_def s1_def)
      have fr1: "suiteFreshContext s1" and act1: "suiteActive s1" by (simp_all add: s1_def)
      from send_cases [OF fr1, of fs] show ?thesis
      proof
        assume "\<exists>reason. sendCurrentStagePrompt fs s1 = endSuite s1 reason"
        then obtain reason where "sendCurrentStagePrompt fs s1 = torn_down reason"
          using endSuite_torn_down [OF fr1] by auto
        then show ?thesis using h by auto
      next
        assume "fst (sendCurrentStagePrompt fs s1) = s1"
        then show ?thesis using h act1 assms(2) by simp
      qed
    next
      case (Context now ev)
      then show ?thesis using a by simp
    next
      case (AgentEnd fs ev)
      then show ?thesis using a na by (simp add: agent_end_def)
    next
      case (Input hasUI source)
      have "input_handler hasUI source s = (s, [], Continue)"
        using na by (simp add: input_handler_def)
      then show ?thesis using a Input by simp
    qed
  qed
qed

subsection \<open>The context hook before the boundary is known\<close>

lemma context_at_first_stage:
  "suiteStageIndex s = 0 \<Longrightarrow> context_handler now s ev = (s, None)"
  by (simp add: context_handler_def split: option.splits)

lemma capture_never_redacts:
  "boundaryNeedsCapture s \<Longrightarrow> snd (context_handler now s ev) = None"
  by (simp add: context_handler_def captureBoundary_def Let_def split: option.splits)

subsection \<open>Compiled prompts\<close>

lemma trim_decomp: "dropWhile is_ws s = trim s @ rev (takeWhile is_ws (rev (dropWhile is_ws s)))"
proof -
  define y where "y = dropWhile is_ws s"
  have "rev (takeWhile is_ws (rev y) @ dropWhile is_ws (rev y)) = rev (rev y)"
    by (simp only: takeWhile_dropWhile_id)
  then have "rev (dropWhile is_ws (rev y)) @ rev (takeWhile is_ws (rev y)) = y"
    by (simp only: rev_append rev_rev_ident)
  then show ?thesis by (simp add: trim_def y_def)
qed

lemma dropWhile_ws_Nil: "dropWhile is_ws s = [] \<longleftrightarrow> (\<forall>c\<in>set s. is_ws c)"
  by (rule dropWhile_eq_Nil_conv)

lemma trim_eq_Nil: "trim s = [] \<longleftrightarrow> (\<forall>c\<in>set s. is_ws c)"
proof
  assume e: "trim s = []"
  have "dropWhile is_ws s = []"
  proof (rule ccontr)
    assume n: "dropWhile is_ws s \<noteq> []"
    then have h: "\<not> is_ws (hd (dropWhile is_ws s))" by (rule hd_dropWhile)
    from e have "dropWhile is_ws (rev (dropWhile is_ws s)) = []" by (simp add: trim_def)
    then have "\<forall>c\<in>set (rev (dropWhile is_ws s)). is_ws c" by (rule dropWhile_ws_Nil [THEN iffD1])
    moreover have "hd (dropWhile is_ws s) \<in> set (rev (dropWhile is_ws s))" using n by simp
    ultimately have "is_ws (hd (dropWhile is_ws s))" by blast
    then show False using h by simp
  qed
  then show "\<forall>c\<in>set s. is_ws c" by (rule dropWhile_ws_Nil [THEN iffD1])
next
  assume "\<forall>c\<in>set s. is_ws c"
  then show "trim s = []" by (auto simp: trim_def dest: set_dropWhileD)
qed

lemma trim_hd: "trim s \<noteq> [] \<Longrightarrow> \<not> is_ws (hd (trim s))"
proof -
  assume n: "trim s \<noteq> []"
  have d: "dropWhile is_ws s \<noteq> []"
  proof
    assume "dropWhile is_ws s = []"
    then have "trim s = []" by (auto simp: trim_def dest: set_dropWhileD)
    then show False using n by simp
  qed
  have "hd (dropWhile is_ws s) = hd (trim s)"
    using arg_cong [OF trim_decomp [of s], of hd] n by simp
  then show ?thesis using hd_dropWhile [OF d] by simp
qed

lemma trim_nonblank_hd: "s \<noteq> [] \<Longrightarrow> \<not> is_ws (hd s) \<Longrightarrow> trim s \<noteq> []"
  using trim_eq_Nil [of s] hd_in_set [of s] by blast

lemma trim_keeps_hd:
  assumes "\<not> is_ws c"
  obtains r where "trim (c # cs) = c # r"
proof -
  have n: "trim (c # cs) \<noteq> []" using assms trim_nonblank_hd [of "c # cs"] by simp
  have "c # cs = trim (c # cs) @ rev (takeWhile is_ws (rev (c # cs)))"
    using trim_decomp [of "c # cs"] assms by simp
  then have "hd (trim (c # cs)) = c" using n by (metis hd_append2 list.sel(1))
  then have "trim (c # cs) = c # tl (trim (c # cs))" using n by (metis list.collapse)
  then show ?thesis using that by blast
qed

lemma stripFrontmatter_hd: "stripFrontmatter raw \<noteq> [] \<Longrightarrow> \<not> is_ws (hd (stripFrontmatter raw))"
  by (auto simp: stripFrontmatter_def trim_hd split: option.splits)

lemma loadPromptText_hd:
  "loadPromptText fs name \<noteq> [] \<Longrightarrow> \<not> is_ws (hd (loadPromptText fs name))"
  by (auto simp: loadPromptText_def stripFrontmatter_hd split: option.splits)

lemma getSubstitution_plain_hd:
  "c \<noteq> CHR 0x24 \<Longrightarrow> getSubstitution m p f (c # r) = c # getSubstitution m p f r"
  by (cases r) simp_all

lemma replaceAll_from_hd:
  assumes "pat \<noteq> []" and "s \<noteq> []" and "\<not> is_ws (hd s)"
    and "c \<noteq> CHR 0x24" and "\<not> is_ws c"
  shows "replaceAll_from pat (c # r) pre s \<noteq> [] \<and>
         \<not> is_ws (hd (replaceAll_from pat (c # r) pre s))"
proof -
  obtain x xs where s: "s = x # xs" using assms(2) by (cases s) auto
  show ?thesis
    using assms(1,3,4,5) by (simp add: s getSubstitution_plain_hd)
qed

lemma scope_hd: "\<exists>r. buildScopePrompt t = CHR ''Y'' # r"
  by (cases t) (simp_all add: scope_common_def)

lemma scope_trim_hd: "\<exists>r. trim (buildScopePrompt t) = CHR ''Y'' # r"
proof -
  obtain r where r: "buildScopePrompt t = CHR ''Y'' # r" using scope_hd by blast
  have "\<not> is_ws (CHR ''Y'')" by (simp add: is_ws_def)
  then obtain r' where "trim (CHR ''Y'' # r) = CHR ''Y'' # r'" by (rule trim_keeps_hd)
  then show ?thesis using r by simp
qed

lemma review_prompt_nonblank:
  assumes "kind st = Review" and "loadPromptText fs (promptName st) \<noteq> []"
  shows "trim (buildStagePrompt fs s t st) \<noteq> []"
proof -
  obtain r where r: "trim (buildScopePrompt t) = CHR ''Y'' # r" using scope_trim_hd by blast
  have p: "buildStagePrompt fs s t st =
             replaceAll_from ''{{SCOPE}}'' (CHR ''Y'' # r) [] (loadPromptText fs (promptName st))"
    using assms(1) by (simp add: buildStagePrompt_def replaceAll_def r)
  have "replaceAll_from ''{{SCOPE}}'' (CHR ''Y'' # r) [] (loadPromptText fs (promptName st)) \<noteq> [] \<and>
        \<not> is_ws (hd (replaceAll_from ''{{SCOPE}}'' (CHR ''Y'' # r) []
                        (loadPromptText fs (promptName st))))"
    using assms(2) loadPromptText_hd [OF assms(2)]
    by (intro replaceAll_from_hd) (simp_all add: is_ws_def)
  then show ?thesis using p trim_nonblank_hd by simp
qed

lemma plain_text_Cons:
  "plain_text (a # w) \<longleftrightarrow>
     a \<noteq> CHR 0x24 \<and> a \<noteq> CHR 0x26 \<and> a \<noteq> CHR 0x60 \<and> a \<noteq> CHR 0x27 \<and> plain_text w"
  by (auto simp: plain_text_def)

lemma getSubstitution_prefix:
  "plain_text w \<Longrightarrow> prefix w v \<Longrightarrow> prefix w (getSubstitution m p f v)"
proof (induction w arbitrary: v)
  case Nil
  then show ?case by simp
next
  case (Cons a w)
  from Cons.prems(2) obtain v' where v: "v = a # v'" and pw: "prefix w v'"
    by (cases v) auto
  have a: "a \<noteq> CHR 0x24" and w: "plain_text w"
    using Cons.prems(1) by (simp_all add: plain_text_Cons)
  show ?case
    using Cons.IH [OF w pw] by (simp add: v getSubstitution_plain_hd [OF a])
qed

lemma sublist_behind: "sublist w ys \<Longrightarrow> sublist w (zs @ ys)"
  by (auto simp: sublist_def) (metis append.assoc)

lemma sublist_skip:
  "w \<noteq> [] \<Longrightarrow> hd w \<noteq> c \<Longrightarrow> sublist w (c # r) \<Longrightarrow> sublist w r"
  by (cases w) (auto simp: sublist_Cons_right)

lemma getSubstitution_sublist:
  "plain_text w \<Longrightarrow> sublist w v \<Longrightarrow> sublist w (getSubstitution m p f v)"
proof (induction m p f v rule: getSubstitution.induct)
  case (1 m p f)
  then show ?case by simp
next
  case (2 m p f c)
  then show ?case by simp
next
  case (3 m p f c d r)
  show ?case
  proof (cases "w = []")
    case True
    then show ?thesis by simp
  next
    case False
    then obtain a w' where w: "w = a # w'" by (cases w) auto
    have a: "a \<noteq> CHR 0x24" "a \<noteq> CHR 0x26" "a \<noteq> CHR 0x60" "a \<noteq> CHR 0x27"
      using "3.prems"(1) by (simp_all add: w plain_text_Cons)
    show ?thesis
    proof (cases "c = CHR 0x24")
      case True
      note c = this
      have "hd w \<noteq> c" using a(1) c by (simp add: w)
      with False have sdr: "sublist w (d # r)"
        using "3.prems"(2) by (rule sublist_skip)
      show ?thesis
      proof (cases "d = CHR 0x24 \<or> d = CHR 0x26 \<or> d = CHR 0x60 \<or> d = CHR 0x27")
        case True
        then have "hd w \<noteq> d" using a by (auto simp: w)
        with \<open>w \<noteq> []\<close> have sr: "sublist w r" using sdr by (rule sublist_skip)
        from True consider "d = CHR 0x24" | "d = CHR 0x26" "d \<noteq> CHR 0x24"
          | "d = CHR 0x60" "d \<noteq> CHR 0x24" "d \<noteq> CHR 0x26"
          | "d = CHR 0x27" "d \<noteq> CHR 0x24" "d \<noteq> CHR 0x26" "d \<noteq> CHR 0x60" by blast
        then show ?thesis
        proof cases
          case 1
          from "3.IH"(1) [OF c 1 "3.prems"(1) sr]
          have "sublist w ([CHR 0x24] @ getSubstitution m p f r)" by (rule sublist_behind)
          then show ?thesis using c 1 by simp
        next
          case 2
          from "3.IH"(2) [OF c 2(2) 2(1) "3.prems"(1) sr]
          have "sublist w (m @ getSubstitution m p f r)" by (rule sublist_behind)
          then show ?thesis using c 2 by simp
        next
          case 3
          from "3.IH"(3) [OF c 3(2) 3(3) 3(1) "3.prems"(1) sr]
          have "sublist w (p @ getSubstitution m p f r)" by (rule sublist_behind)
          then show ?thesis using c 3 by simp
        next
          case 4
          from "3.IH"(4) [OF c 4(2) 4(3) 4(4) 4(1) "3.prems"(1) sr]
          have "sublist w (f @ getSubstitution m p f r)" by (rule sublist_behind)
          then show ?thesis using c 4 by simp
        qed
      next
        case False
        then have d: "d \<noteq> CHR 0x24" "d \<noteq> CHR 0x26" "d \<noteq> CHR 0x60" "d \<noteq> CHR 0x27"
          by simp_all
        from "3.IH"(5) [OF c d "3.prems"(1) sdr]
        have "sublist w ([c] @ getSubstitution m p f (d # r))" by (rule sublist_behind)
        then show ?thesis using c d by simp
      qed
    next
      case False
      note c = this
      from "3.prems"(2) consider "prefix w (c # d # r)" | "sublist w (d # r)"
        by (auto simp: sublist_Cons_right)
      then show ?thesis
      proof cases
        case 1
        with "3.prems"(1) have "prefix w (getSubstitution m p f (c # d # r))"
          by (rule getSubstitution_prefix)
        then show ?thesis by (auto simp: prefix_def)
      next
        case 2
        from "3.IH"(6) [OF c "3.prems"(1) 2]
        have "sublist w ([c] @ getSubstitution m p f (d # r))" by (rule sublist_behind)
        then show ?thesis using c by simp
      qed
    qed
  qed
qed

lemma replaceAll_from_contains:
  "pat \<noteq> [] \<Longrightarrow> sublist pat s \<Longrightarrow>
     \<exists>p f. sublist (getSubstitution pat p f rep) (replaceAll_from pat rep pre s)"
proof (induction s arbitrary: pre)
  case Nil
  then show ?case by simp
next
  case (Cons c cs)
  show ?case
  proof (cases "prefix pat (c # cs)")
    case True
    have "sublist (getSubstitution pat pre (drop (length pat) (c # cs)) rep)
            (replaceAll_from pat rep pre (c # cs))"
      using Cons.prems(1) True by simp
    then show ?thesis by blast
  next
    case False
    then have "sublist pat cs" using Cons.prems(2) by (simp add: sublist_Cons_right)
    from Cons.IH [OF Cons.prems(1) this, of "pre @ [c]"] obtain p f
      where "sublist (getSubstitution pat p f rep) (replaceAll_from pat rep (pre @ [c]) cs)"
      by blast
    then have "sublist (getSubstitution pat p f rep)
                 ([c] @ replaceAll_from pat rep (pre @ [c]) cs)"
      by (rule sublist_behind)
    then show ?thesis using Cons.prems(1) False by auto
  qed
qed

lemma join_with_contains: "x \<in> set xs \<Longrightarrow> sublist x (join_with sep xs)"
proof (induction sep xs rule: join_with.induct)
  case (1 sep)
  then show ?case by simp
next
  case (2 sep x')
  then show ?case by simp
next
  case (3 sep x' y ys)
  show ?case
  proof (cases "x = x'")
    case True
    then show ?thesis by simp
  next
    case False
    then have "sublist x (join_with sep (y # ys))" using 3 by simp
    then have "sublist x ((x' @ sep) @ join_with sep (y # ys))" by (rule sublist_behind)
    then show ?thesis by simp
  qed
qed

lemma label_in_section: "sublist (stageLabel r) (reportSection r)"
  unfolding reportSection_def by (rule sublist_behind) simp

lemma label_in_reports:
  assumes "r \<in> set rs"
  shows "sublist (stageLabel r) (join_with sep (map reportSection rs))"
proof -
  have "reportSection r \<in> set (map reportSection rs)" using assms by simp
  then have "sublist (reportSection r) (join_with sep (map reportSection rs))"
    by (rule join_with_contains)
  with label_in_section [of r] show ?thesis by (rule sublist_order.order.trans)
qed

lemma synthesis_prompt_labels:
  assumes "kind st = Synthesize" and "sublist ''{{REPORTS}}'' (loadPromptText fs (promptName st))"
    and "r \<in> set (suiteReports s)" and "plain_text (stageLabel r)"
  shows "sublist (stageLabel r) (buildStagePrompt fs s t st)"
proof -
  define v where "v = join_with [CHR 0x0A] (map reportSection (suiteReports s))"
  have p: "buildStagePrompt fs s t st =
             replaceAll_from ''{{REPORTS}}'' v [] (loadPromptText fs (promptName st))"
    using assms(1) by (simp add: buildStagePrompt_def replaceAll_def v_def)
  obtain pr fo where
    "sublist (getSubstitution ''{{REPORTS}}'' pr fo v)
       (replaceAll_from ''{{REPORTS}}'' v [] (loadPromptText fs (promptName st)))"
    using replaceAll_from_contains [OF _ assms(2), of v "[]"] by auto
  moreover have "sublist (stageLabel r) (getSubstitution ''{{REPORTS}}'' pr fo v)"
    using assms(4) label_in_reports [OF assms(3)] unfolding v_def
    by (rule getSubstitution_sublist)
  ultimately show ?thesis unfolding p by (rule sublist_order.order.trans [rotated])
qed

lemma sublist_nonblank:
  assumes "sublist w p" and "c \<in> set w" and "\<not> is_ws c"
  shows "trim p \<noteq> []"
proof -
  have "set w \<subseteq> set p" using assms(1) by (auto simp: sublist_def)
  then have "c \<in> set p" using assms(2) by blast
  then show ?thesis using assms(3) trim_eq_Nil [of p] by blast
qed

lemma turn_advances:
  assumes "suiteActive s" and "suiteTarget s = Some t" and "currentStage s = Some st"
    and "getLastAssistantText ms \<noteq> []" and "suiteStageIndex s + 1 < 4"
    and "s' = (harvest st (getLastAssistantText ms) s)\<lparr>suiteStageIndex := suiteStageIndex s + 1\<rparr>"
    and "currentStage s' = Some st'" and "trim (buildStagePrompt fs s' t st') \<noteq> []"
  shows "agent_end fs s (Some ms) =
           (s', updateSuiteStatus s' @ [SendUserMessage (buildStagePrompt fs s' t st')])"
proof -
  have "agent_end fs s (Some ms) = sendCurrentStagePrompt fs s'"
    using assms(1,3,4,5,6) by (simp add: agent_end_def Let_def stages_length)
  moreover have "suiteTarget s' = Some t" using assms(2,6) by simp
  ultimately show ?thesis
    using assms(7,8) by (simp add: sendCurrentStagePrompt_def)
qed

lemma default_labels_plain:
  "plain_text ''Overall''" "plain_text ''Linus''" "plain_text ''Staff''"
  by (simp_all add: plain_text_def)

subsection \<open>The sample run, evaluated\<close>

lemma after_turns_3:
  "after_turns 3 =
     \<lparr>suiteActive = True, suiteTarget = Some Staged, suiteStageIndex = 3,
      suiteReports =
        [\<lparr>stageId = ''overall'', stageLabel = ''Overall'', report_text = ''No blockers.''\<rparr>,
         \<lparr>stageId = ''linus'', stageLabel = ''Linus'', report_text = ''No blockers.''\<rparr>,
         \<lparr>stageId = ''staff'', stageLabel = ''Staff'', report_text = ''No blockers.''\<rparr>],
      suiteFreshContext = True, suiteBoundaryCount = - 1, boundaryNeedsCapture = True\<rparr>"
  by code_simp

lemma started_eq:
  "started =
     \<lparr>suiteActive = True, suiteTarget = Some Staged, suiteStageIndex = 0,
      suiteReports = [], suiteFreshContext = True, suiteBoundaryCount = - 1,
      boundaryNeedsCapture = True\<rparr>"
  by code_simp

lemma sample_answer_text: "getLastAssistantText [sample_answer] \<noteq> []"
  by code_simp

lemma blank_answer_text: "getLastAssistantText [assistant_says [CHR 0x20, CHR 0x0A, CHR 0x09]] = []"
  by code_simp

lemma reachable_started: "reachable started"
  by (simp add: started_def reachable_run)

lemma reachable_after_turns: "reachable (after_turns n)"
  by (simp add: after_turns_def reachable_run)

lemma marked_answer_text:
  "getLastAssistantText [marked_answer] =
     join_with STAGE_DONE_MARKER [''Fix '', ''this.\<newline>'', []]"
  by code_simp

lemma marked_pieces_clean:
  "\<forall>p\<in>set [''Fix '', ''this.\<newline>'', []]. \<not> sublist STAGE_DONE_MARKER p"
  by code_simp

lemma marked_turn:
  "fst (agent_end sample_fs started (Some [marked_answer])) =
     \<lparr>suiteActive = True, suiteTarget = Some Staged, suiteStageIndex = 1,
      suiteReports =
        [\<lparr>stageId = ''overall'', stageLabel = ''Overall'', report_text = ''Fix this.''\<rparr>],
      suiteFreshContext = True, suiteBoundaryCount = - 1, boundaryNeedsCapture = True\<rparr>"
  by code_simp

lemma review_run_state:
  "run review_events =
     \<lparr>suiteActive = True, suiteTarget = Some Staged, suiteStageIndex = 2,
      suiteReports =
        [\<lparr>stageId = ''overall'', stageLabel = ''Overall'',
          report_text = ''Overall: one blocker.''\<rparr>,
         \<lparr>stageId = ''linus'', stageLabel = ''Linus'', report_text = ''Linus: too clever.''\<rparr>],
      suiteFreshContext = True, suiteBoundaryCount = 4, boundaryNeedsCapture = False\<rparr>"
  by code_simp

lemma stage_2_prompt_sent:
  "snd (handle (AgentEnd sample_fs (Some (history_1 @ [answer_2])))
          (run (take 4 review_events))) =
     [SetStatus (Some ''Review suite: Staff (3/4) | fresh''),
      SendUserMessage (stage_prompt_text 2)]"
  by code_simp

lemma stage_1_view:
  "snd (context_handler 7 (run (take 3 review_events)) (Some history_1)) = None"
  by code_simp

text \<open>
  Were the boundary the position 2 of the first prompt of the suite, the same call
  would hide the first two stages.
\<close>

lemma view_with_boundary_at_first_prompt:
  "snd (context_handler 7 ((run review_events)\<lparr>suiteBoundaryCount := 2\<rparr>) (Some history_2)) =
     Some (pre_suite @ [notice 7 (DEFAULT_SUITE_STAGES ! 2), stage_prompt 2])"
  unfolding review_run_state
  by (simp add: context_handler_def currentStage_def DEFAULT_SUITE_STAGES_def
        lastUserIndex_def history_2_def history_1_def history_0_def pre_suite_def
        stage_prompt_def answer_1_def answer_2_def user_says_def assistant_says_def)

lemma sample_templates_present:
  "loadPromptText sample_fs ''review-linus'' \<noteq> []"
  "loadPromptText sample_fs ''review-staff'' \<noteq> []"
  "sublist ''{{REPORTS}}'' (loadPromptText sample_fs ''review-synthesize'')"
  by code_simp+

lemma turns_snoc:
  "turns fs s (answers @ [ms]) = fst (agent_end fs (turns fs s answers) (Some ms))"
  by (simp add: turns_def)

lemma one_turn_without_synthesis:
  "turns fs_without_synthesis started [[sample_answer]] =
     \<lparr>suiteActive = True, suiteTarget = Some Staged, suiteStageIndex = 1,
      suiteReports =
        [\<lparr>stageId = ''overall'', stageLabel = ''Overall'', report_text = ''No blockers.''\<rparr>],
      suiteFreshContext = True, suiteBoundaryCount = - 1, boundaryNeedsCapture = True\<rparr>"
  by code_simp

lemma two_turns_without_synthesis:
  "turns fs_without_synthesis started [[sample_answer], [sample_answer]] =
     \<lparr>suiteActive = True, suiteTarget = Some Staged, suiteStageIndex = 2,
      suiteReports =
        [\<lparr>stageId = ''overall'', stageLabel = ''Overall'', report_text = ''No blockers.''\<rparr>,
         \<lparr>stageId = ''linus'', stageLabel = ''Linus'', report_text = ''No blockers.''\<rparr>],
      suiteFreshContext = True, suiteBoundaryCount = - 1, boundaryNeedsCapture = True\<rparr>"
  by code_simp

lemma third_turn_without_synthesis:
  "agent_end fs_without_synthesis
     \<lparr>suiteActive = True, suiteTarget = Some Staged, suiteStageIndex = 2,
      suiteReports =
        [\<lparr>stageId = ''overall'', stageLabel = ''Overall'', report_text = ''No blockers.''\<rparr>,
         \<lparr>stageId = ''linus'', stageLabel = ''Linus'', report_text = ''No blockers.''\<rparr>],
      suiteFreshContext = True, suiteBoundaryCount = - 1, boundaryNeedsCapture = True\<rparr>
     (Some [sample_answer]) =
     (initial_suite,
      [SetStatus None,
       Notify ''Review suite ended: missing prompt template: review-synthesize'' ''info''])"
  by code_simp

section \<open>The stage index\<close>

text \<open>
  C8. Between any two handlers the stage index lies between 0 and the length of the
  pipeline, and an active suite never stands at the length of the pipeline: the turn
  that would move an active suite from the last stage to that index ends the run in
  the same handler, leaving the initial inactive suite.
\<close>

theorem stage_index_bounds:
  assumes "reachable s"
  shows "0 \<le> suiteStageIndex s \<and> suiteStageIndex s \<le> int (length DEFAULT_SUITE_STAGES) \<and>
         (suiteActive s \<longrightarrow> suiteStageIndex s \<noteq> int (length DEFAULT_SUITE_STAGES)) \<and>
         (suiteActive s \<and> suiteStageIndex s + 1 = int (length DEFAULT_SUITE_STAGES) \<and>
          getLastAssistantText ms \<noteq> [] \<longrightarrow>
            agent_end fs s (Some ms) =
              (initial_suite, [SetStatus None, Notify ''Review suite ended: complete'' ''info'']))"
proof -
  have i: "suite_inv s" using assms by (rule reachable_inv)
  have bounds: "0 \<le> suiteStageIndex s \<and> suiteStageIndex s \<le> 4 \<and>
                (suiteActive s \<longrightarrow> suiteStageIndex s \<noteq> 4)"
    using i by (cases "suiteActive s") (auto simp: suite_inv_def initial_suite_def)
  have last_turn: "agent_end fs s (Some ms) =
      (initial_suite, [SetStatus None, Notify ''Review suite ended: complete'' ''info''])"
    if act: "suiteActive s" and idx: "suiteStageIndex s + 1 = 4"
      and ans: "getLastAssistantText ms \<noteq> []"
  proof -
    define st where "st = DEFAULT_SUITE_STAGES ! nat (suiteStageIndex s)"
    define s2 where
      "s2 = (harvest st (getLastAssistantText ms) s)\<lparr>suiteStageIndex := suiteStageIndex s + 1\<rparr>"
    have cs: "currentStage s = Some st"
      using inv_currentStage [OF i act] by (simp add: st_def)
    have "agent_end fs s (Some ms) = endSuite s2 ''complete''"
      using act cs ans idx by (simp add: agent_end_def Let_def s2_def stages_length)
    moreover have "suiteFreshContext s2" using inv_fresh [OF i] by (simp add: s2_def)
    ultimately show ?thesis
      using endSuite_fresh [of s2 "''complete''"] endSuite_effects [of s2 "''complete''"]
      by (simp add: prod_eq_iff)
  qed
  show ?thesis using bounds last_turn by (simp add: stages_length)
qed

theorem stage_index_bounds_witness:
  "suiteActive (after_turns 3) \<and> suiteStageIndex (after_turns 3) = 3 \<and>
   agent_end sample_fs (after_turns 3) (Some [sample_answer]) =
     (initial_suite, [SetStatus None, Notify ''Review suite ended: complete'' ''info''])"
  using stage_index_bounds [of "after_turns 3" "[sample_answer]" sample_fs]
        reachable_run [of "Command sample_fs True True (Some Staged) #
          replicate 3 (AgentEnd sample_fs (Some [sample_answer]))"]
        sample_answer_text
  by (simp add: after_turns_def [symmetric] after_turns_3 stages_length)

section \<open>The reports\<close>

text \<open>
  C10. While a run is active the reports are exactly those of the first
  \<open>min stageIndex 3\<close> stages of the pipeline, in the order of the pipeline, with the
  ids and labels of these stages, all of them review stages; harvesting the answer
  of the synthesize stage leaves the reports as they are, and the list never has
  more than three entries.
\<close>

theorem reports_follow_pipeline:
  assumes "reachable s"
  shows "length (suiteReports s) \<le> 3 \<and>
         (suiteActive s \<longrightarrow>
            length (suiteReports s) = nat (min (suiteStageIndex s) 3) \<and>
            map (\<lambda>r. (stageId r, stageLabel r)) (suiteReports s) =
              map (\<lambda>st. (stage_id st, label st))
                (take (nat (min (suiteStageIndex s) 3)) DEFAULT_SUITE_STAGES) \<and>
            list_all (\<lambda>st. kind st = Review)
              (take (nat (min (suiteStageIndex s) 3)) DEFAULT_SUITE_STAGES)) \<and>
         (kind st = Synthesize \<longrightarrow> suiteReports (harvest st a s) = suiteReports s)"
proof -
  have i: "suite_inv s" using assms by (rule reachable_inv)
  have syn: "kind st = Synthesize \<longrightarrow> suiteReports (harvest st a s) = suiteReports s"
    by (simp add: harvest_def)
  show ?thesis
  proof (cases "suiteActive s")
    case False
    then have "s = initial_suite" using i by (rule inv_inactive [rotated])
    then have "suiteReports s = []" by (simp add: initial_suite_def)
    then show ?thesis using False syn by simp
  next
    case True
    have idx: "0 \<le> suiteStageIndex s \<and> suiteStageIndex s < 4" using i True by (rule inv_index)
    then have m: "min (suiteStageIndex s) 3 = suiteStageIndex s" by simp
    have tags: "map (\<lambda>r. (stageId r, stageLabel r)) (suiteReports s) =
                  stage_tags (nat (suiteStageIndex s))"
      using i True by (rule inv_reports)
    have "length (map (\<lambda>r. (stageId r, stageLabel r)) (suiteReports s)) =
            length (stage_tags (nat (suiteStageIndex s)))"
      by (simp only: tags)
    then have len: "length (suiteReports s) = nat (suiteStageIndex s)"
      using idx by (auto simp: stage_tags_def stages_length)
    have "suiteStageIndex s = 0 \<or> suiteStageIndex s = 1 \<or> suiteStageIndex s = 2 \<or>
          suiteStageIndex s = 3"
      using idx by auto
    then have rev: "list_all (\<lambda>st. kind st = Review)
                      (take (nat (suiteStageIndex s)) DEFAULT_SUITE_STAGES)"
      by (auto simp: DEFAULT_SUITE_STAGES_def)
    have le: "nat (suiteStageIndex s) \<le> 3" using idx by linarith
    show ?thesis using len tags rev syn le m by (simp add: stage_tags_def)
  qed
qed

theorem reports_follow_pipeline_witness:
  "suiteActive (after_turns 3) \<and> length (suiteReports (after_turns 3)) = 3 \<and>
   map (\<lambda>r. (stageId r, stageLabel r)) (suiteReports (after_turns 3)) =
     [(''overall'', ''Overall''), (''linus'', ''Linus''), (''staff'', ''Staff'')] \<and>
   kind (DEFAULT_SUITE_STAGES ! 3) = Synthesize \<and>
   suiteReports (harvest (DEFAULT_SUITE_STAGES ! 3) ''ok'' (after_turns 3)) =
     suiteReports (after_turns 3)"
  using reports_follow_pipeline [OF reachable_after_turns [of 3],
          where st = "DEFAULT_SUITE_STAGES ! 3" and a = "''ok''"]
  by (simp add: after_turns_3 DEFAULT_SUITE_STAGES_def)

text \<open>
  C9. At the end of a turn of a review stage with a non-empty answer, let the answer
  be cut at the occurrences of the marker \<open>[[PI_REVIEW_STAGE_DONE]]\<close>, that is, be the
  pieces joined by the marker, no piece containing it (every text is cut so in
  at least one way, see \<open>pieces_exist\<close>; a text without the marker is its own single
  piece). Then the handler goes on from the suite in which the report of the stage
  has been appended with the pieces put together, trimmed, as its text: every
  occurrence of the marker is gone, wherever it stood. If the run is still active
  after the handler, this is the last report of the suite.
\<close>

theorem stored_report_strips_marker:
  assumes "suiteActive s" and "currentStage s = Some st" and "kind st = Review"
    and "getLastAssistantText ms = join_with STAGE_DONE_MARKER pieces"
    and "\<forall>p\<in>set pieces. \<not> sublist STAGE_DONE_MARKER p"
    and "getLastAssistantText ms \<noteq> []"
  shows "agent_end fs s (Some ms) =
           sendCurrentStagePrompt fs
             (s\<lparr>suiteReports := suiteReports s @
                  [\<lparr>stageId = stage_id st, stageLabel = label st,
                    report_text = trim (concat pieces)\<rparr>],
                suiteStageIndex := suiteStageIndex s + 1\<rparr>) \<and>
         (suiteActive (fst (agent_end fs s (Some ms))) \<longrightarrow>
            suiteReports (fst (agent_end fs s (Some ms))) =
              suiteReports s @
                [\<lparr>stageId = stage_id st, stageLabel = label st,
                  report_text = trim (concat pieces)\<rparr>])"
proof -
  define s2 where
    "s2 = s\<lparr>suiteReports := suiteReports s @
                  [\<lparr>stageId = stage_id st, stageLabel = label st,
                    report_text = trim (concat pieces)\<rparr>],
             suiteStageIndex := suiteStageIndex s + 1\<rparr>"
  have clean: "replaceAll (getLastAssistantText ms) STAGE_DONE_MARKER [] = concat pieces"
    using strip_marker [OF assms(5)] assms(4) by simp
  have h: "(harvest st (getLastAssistantText ms) s)\<lparr>suiteStageIndex := suiteStageIndex s + 1\<rparr> = s2"
    using assms(3) clean by (simp add: harvest_def s2_def)
  have idx: "suiteStageIndex s + 1 < 4" using assms(2,3) by (rule review_stage_index)
  have eq: "agent_end fs s (Some ms) = sendCurrentStagePrompt fs s2"
    using assms(1,2,6) idx h by (simp add: agent_end_def Let_def stages_length)
  have kept: "suiteReports (fst (sendCurrentStagePrompt fs s2)) = suiteReports s2"
    if "suiteActive (fst (sendCurrentStagePrompt fs s2))"
  proof -
    from sendCurrentStagePrompt_cases [of fs s2]
    show ?thesis
    proof
      assume "fst (sendCurrentStagePrompt fs s2) = s2"
      then show ?thesis by simp
    next
      assume "\<exists>reason. sendCurrentStagePrompt fs s2 = endSuite s2 reason"
      then show ?thesis using that endSuite_inactive [of s2] by auto
    qed
  qed
  show ?thesis using eq kept by (simp add: s2_def)
qed

theorem stored_report_strips_marker_witness:
  "suiteActive started \<and>
   getLastAssistantText [marked_answer] =
     ''Fix [[PI_REVIEW_STAGE_DONE]]this.\<newline>[[PI_REVIEW_STAGE_DONE]]'' \<and>
   suiteActive (fst (agent_end sample_fs started (Some [marked_answer]))) \<and>
   suiteReports (fst (agent_end sample_fs started (Some [marked_answer]))) =
     [\<lparr>stageId = ''overall'', stageLabel = ''Overall'', report_text = ''Fix this.''\<rparr>]"
  using stored_report_strips_marker [where s = started and st = "DEFAULT_SUITE_STAGES ! 0"
          and ms = "[marked_answer]" and pieces = "[''Fix '', ''this.\<newline>'', []]"
          and fs = sample_fs]
        marked_answer_text marked_pieces_clean marked_turn
  by (simp add: started_eq STAGE_DONE_MARKER_def)

section \<open>Ending a run\<close>

text \<open>
  C7. \<open>endSuite\<close> is the one teardown: on every reachable suite and for every reason
  it gives \<open>torn_down reason\<close>, the initial inactive suite (no target, stage index 0,
  no reports, no boundary, no pending capture, fresh context on) together with the
  cleared status and the notification of the reason. Each way a run ends is that
  teardown: the completion of the last stage, an empty answer, a missing template at
  the end of a turn and at the start of a run, an interruption, and the defensive
  ends for a missing target and a missing stage. And whenever a handler leaves the
  suite inactive, the suite is the initial one; if a run was active or was just
  started, the handler has made that teardown.
\<close>

theorem teardown_resets:
  assumes "reachable s"
  shows "endSuite s reason = torn_down reason \<and>
         fst (torn_down reason) = initial_suite \<and>
         snd (torn_down reason) =
           [SetStatus None, Notify (''Review suite ended: '' @ reason) ''info''] \<and>
         (suiteActive s \<and> int (length DEFAULT_SUITE_STAGES) \<le> suiteStageIndex s + 1 \<and>
          getLastAssistantText ms \<noteq> [] \<longrightarrow>
            agent_end fs s (Some ms) = torn_down ''complete'') \<and>
         (suiteActive s \<and> getLastAssistantText ms = [] \<longrightarrow>
            agent_end fs s (Some ms) = torn_down ''aborted (no assistant output) '') \<and>
         (suiteActive s \<and> getLastAssistantText ms \<noteq> [] \<and>
          suiteStageIndex s + 1 < int (length DEFAULT_SUITE_STAGES) \<and>
          loadPromptText fs
            (promptName (DEFAULT_SUITE_STAGES ! nat (suiteStageIndex s + 1))) = [] \<longrightarrow>
            agent_end fs s (Some ms) =
              torn_down (''missing prompt template: '' @
                promptName (DEFAULT_SUITE_STAGES ! nat (suiteStageIndex s + 1)))) \<and>
         (\<not> suiteActive s \<and> loadPromptText fs ''review-overall'' = [] \<longrightarrow>
            review_command fs True True (Some target) s =
              (initial_suite,
               Notify ''Review started'' ''info'' #
               snd (torn_down ''missing prompt template: review-overall''))) \<and>
         (suiteActive s \<longrightarrow>
            input_handler True ''interactive'' s =
              (initial_suite, snd (torn_down ''user interrupted''), Continue)) \<and>
         (suiteFreshContext s' \<and> suiteTarget s' = None \<longrightarrow>
            sendCurrentStagePrompt fs s' = torn_down ''internal error: missing target'') \<and>
         (suiteFreshContext s' \<and> suiteTarget s' \<noteq> None \<and> currentStage s' = None \<longrightarrow>
            sendCurrentStagePrompt fs s' = torn_down ''done'') \<and>
         (suiteFreshContext s' \<and> suiteActive s' \<and> currentStage s' = None \<longrightarrow>
            agent_end fs s' ev = torn_down ''done'') \<and>
         (\<not> suiteActive (fst (handle e s)) \<longrightarrow>
            fst (handle e s) = initial_suite \<and>
            (suiteActive s \<longrightarrow> (\<exists>r. handle e s = torn_down r)) \<and>
            (\<not> suiteActive s \<and> Notify ''Review started'' ''info'' \<in> set (snd (handle e s)) \<longrightarrow>
               (\<exists>r. snd (handle e s) = Notify ''Review started'' ''info'' # snd (torn_down r))))"
proof -
  have i: "suite_inv s" using assms by (rule reachable_inv)
  have fr: "suiteFreshContext s" using i by (rule inv_fresh)
  have path: "endSuite s reason = torn_down reason" using fr by (rule endSuite_torn_down)
  have shape: "fst (torn_down reason) = initial_suite \<and>
               snd (torn_down reason) =
                 [SetStatus None, Notify (''Review suite ended: '' @ reason) ''info'']"
    by (simp add: torn_down_def)
  have complete: "suiteActive s \<and> int (length DEFAULT_SUITE_STAGES) \<le> suiteStageIndex s + 1 \<and>
          getLastAssistantText ms \<noteq> [] \<longrightarrow>
            agent_end fs s (Some ms) = torn_down ''complete''"
    using turn_completes [OF i, of ms fs] by (simp add: stages_length)
  have aborted: "suiteActive s \<and> getLastAssistantText ms = [] \<longrightarrow>
            agent_end fs s (Some ms) = torn_down ''aborted (no assistant output) ''"
    using turn_aborts [OF i, of ms fs] by simp
  have missing: "suiteActive s \<and> getLastAssistantText ms \<noteq> [] \<and>
          suiteStageIndex s + 1 < int (length DEFAULT_SUITE_STAGES) \<and>
          loadPromptText fs
            (promptName (DEFAULT_SUITE_STAGES ! nat (suiteStageIndex s + 1))) = [] \<longrightarrow>
            agent_end fs s (Some ms) =
              torn_down (''missing prompt template: '' @
                promptName (DEFAULT_SUITE_STAGES ! nat (suiteStageIndex s + 1)))"
    using turn_missing_template [OF i, of ms fs] by (simp add: stages_length)
  have start: "\<not> suiteActive s \<and> loadPromptText fs ''review-overall'' = [] \<longrightarrow>
            review_command fs True True (Some target) s =
              (initial_suite,
               Notify ''Review started'' ''info'' #
               snd (torn_down ''missing prompt template: review-overall''))"
    using start_missing_template [of s fs target] by simp
  have interrupt: "suiteActive s \<longrightarrow>
            input_handler True ''interactive'' s =
              (initial_suite, snd (torn_down ''user interrupted''), Continue)"
    using interrupt_tears_down [OF fr] by simp
  have defensive:
    "suiteFreshContext s' \<and> suiteTarget s' = None \<longrightarrow>
       sendCurrentStagePrompt fs s' = torn_down ''internal error: missing target''"
    "suiteFreshContext s' \<and> suiteTarget s' \<noteq> None \<and> currentStage s' = None \<longrightarrow>
       sendCurrentStagePrompt fs s' = torn_down ''done''"
    "suiteFreshContext s' \<and> suiteActive s' \<and> currentStage s' = None \<longrightarrow>
       agent_end fs s' ev = torn_down ''done''"
    using defensive_teardowns(1) [of s' fs] defensive_teardowns(2) [of s' fs]
      defensive_teardowns(3) [of s' fs ev]
    by blast+
  have every: "\<not> suiteActive (fst (handle e s)) \<longrightarrow>
            fst (handle e s) = initial_suite \<and>
            (suiteActive s \<longrightarrow> (\<exists>r. handle e s = torn_down r)) \<and>
            (\<not> suiteActive s \<and> Notify ''Review started'' ''info'' \<in> set (snd (handle e s)) \<longrightarrow>
               (\<exists>r. snd (handle e s) = Notify ''Review started'' ''info'' # snd (torn_down r)))"
    using inactive_step [OF i, of e] by blast
  from path shape complete aborted missing start interrupt defensive every
  show ?thesis by (intro conjI) blast+
qed

theorem teardown_resets_witness:
  "suiteActive (run review_events) \<and> suiteStageIndex (run review_events) = 2 \<and>
   length (suiteReports (run review_events)) = 2 \<and>
   suiteBoundaryCount (run review_events) = 4 \<and>
   endSuite (run review_events) ''complete'' =
     (initial_suite, [SetStatus None, Notify ''Review suite ended: complete'' ''info'']) \<and>
   agent_end sample_fs (run review_events) (Some []) =
     torn_down ''aborted (no assistant output) '' \<and>
   agent_end fs_without_synthesis (run review_events) (Some [sample_answer]) =
     torn_down ''missing prompt template: review-synthesize'' \<and>
   input_handler True ''interactive'' (run review_events) =
     (initial_suite,
      [SetStatus None, Notify ''Review suite ended: user interrupted'' ''info''], Continue) \<and>
   agent_end sample_fs (after_turns 3) (Some [sample_answer]) = torn_down ''complete'' \<and>
   review_command empty_fs True True (Some Staged) initial_suite =
     (initial_suite,
      [Notify ''Review started'' ''info'', SetStatus None,
       Notify ''Review suite ended: missing prompt template: review-overall'' ''info''])"
proof -
  have st: "suiteActive (run review_events)" "suiteStageIndex (run review_events) = 2"
    "length (suiteReports (run review_events)) = 2" "suiteBoundaryCount (run review_events) = 4"
    by (simp_all add: review_run_state)
  have at3: "suiteActive (after_turns 3)" "suiteStageIndex (after_turns 3) = 3"
    by (simp_all add: after_turns_3)
  have no_text: "getLastAssistantText [] = []" by (simp add: getLastAssistantText_def)
  have no_syn: "loadPromptText fs_without_synthesis ''review-synthesize'' = []"
    by (simp add: loadPromptText_def fs_without_synthesis_def)
  have no_overall: "loadPromptText empty_fs ''review-overall'' = []"
    by (simp add: loadPromptText_def empty_fs_def)
  have next_stage: "promptName (DEFAULT_SUITE_STAGES ! nat (2 + 1)) = ''review-synthesize''"
    by (simp add: DEFAULT_SUITE_STAGES_def)
  note a = teardown_resets [OF reachable_run, of review_events "''complete''" "[]" sample_fs]
  note b = teardown_resets [OF reachable_run, of review_events "''complete''" "[sample_answer]"
             fs_without_synthesis]
  note c = teardown_resets [OF reachable_after_turns, of 3 "''complete''" "[sample_answer]"
             sample_fs]
  note d = teardown_resets [OF r_init, of "''complete''" "[]" empty_fs Staged]
  have 1: "endSuite (run review_events) ''complete'' =
             (initial_suite, [SetStatus None, Notify ''Review suite ended: complete'' ''info''])"
    using a by (simp add: torn_down_def)
  have 2: "agent_end sample_fs (run review_events) (Some []) =
             torn_down ''aborted (no assistant output) ''"
    using a st(1) no_text by blast
  have 3: "agent_end fs_without_synthesis (run review_events) (Some [sample_answer]) =
             torn_down ''missing prompt template: review-synthesize''"
    using b st(1,2) sample_answer_text no_syn next_stage by (simp add: stages_length)
  have 4: "input_handler True ''interactive'' (run review_events) =
             (initial_suite,
              [SetStatus None, Notify ''Review suite ended: user interrupted'' ''info''],
              Continue)"
    using a st(1) by (simp add: torn_down_def)
  have 5: "agent_end sample_fs (after_turns 3) (Some [sample_answer]) = torn_down ''complete''"
    using c at3 sample_answer_text by (simp add: stages_length)
  have 6: "review_command empty_fs True True (Some Staged) initial_suite =
             (initial_suite,
              [Notify ''Review started'' ''info'', SetStatus None,
               Notify ''Review suite ended: missing prompt template: review-overall'' ''info''])"
    using d no_overall by (simp add: torn_down_def initial_suite_def)
  from st 1 2 3 4 5 6 show ?thesis by (intro conjI)
qed

text \<open>
  C6. The review command on an active suite leaves every variable of the suite as
  it is, sends no prompt and sets no status; when it gets as far as the test of the
  active flag it only warns that a suite is already running.
\<close>

theorem second_start_rejected:
  assumes "suiteActive s"
  shows "fst (review_command fs isIdle inGitRepo resolved s) = s \<and>
         SendUserMessage p \<notin> set (snd (review_command fs isIdle inGitRepo resolved s)) \<and>
         SetStatus st \<notin> set (snd (review_command fs isIdle inGitRepo resolved s)) \<and>
         (isIdle \<and> inGitRepo \<and> resolved \<noteq> None \<longrightarrow>
            snd (review_command fs isIdle inGitRepo resolved s) =
              [Notify ''A review suite is already running. Type anything to interrupt it.''
                 ''warning''])"
  using assms by (auto simp: review_command_def split: option.splits)

theorem second_start_rejected_witness:
  "suiteActive started \<and>
   review_command sample_fs True True (Some Worktree) started =
     (started,
      [Notify ''A review suite is already running. Type anything to interrupt it.''
         ''warning''])"
  using second_start_rejected [where s = started and fs = sample_fs and isIdle = True
          and inGitRepo = True and resolved = "Some Worktree" and p = "[]" and st = None]
  by (simp add: started_eq prod_eq_iff)

text \<open>
  C3. On a reachable active suite, at whatever stage, a turn whose last assistant
  message has no text after trimming, or that has no assistant message at all, ends
  the run: the suite is the initial inactive one, so no report is kept or added, and
  the notified reason is the abort for missing assistant output.
\<close>

theorem empty_output_aborts:
  assumes "reachable s" and "suiteActive s"
    and "(\<forall>m\<in>set ms. role m \<noteq> ''assistant'') \<or> getLastAssistantText ms = []"
    and "ev = Some ms \<or> (ev = None \<and> ms = [])"
  shows "agent_end fs s ev =
           (initial_suite,
            [SetStatus None,
             Notify ''Review suite ended: aborted (no assistant output) '' ''info''])"
proof -
  have i: "suite_inv s" using assms(1) by (rule reachable_inv)
  have blank: "getLastAssistantText ms = []"
    using assms(3) no_assistant_text by blast
  have ms: "(case ev of Some ms \<Rightarrow> ms | None \<Rightarrow> []) = ms" using assms(4) by auto
  obtain st where cs: "currentStage s = Some st"
    using inv_currentStage [OF i assms(2)] by blast
  have "agent_end fs s ev = endSuite s ''aborted (no assistant output) ''"
    using assms(2) cs blank ms by (simp add: agent_end_def)
  then show ?thesis using endSuite_eq [OF inv_fresh [OF i]] by simp
qed

theorem empty_output_aborts_witness:
  "agent_end sample_fs started (Some []) =
     (initial_suite,
      [SetStatus None, Notify ''Review suite ended: aborted (no assistant output) '' ''info'']) \<and>
   agent_end sample_fs (after_turns 3) (Some [assistant_says [CHR 0x20, CHR 0x0A, CHR 0x09]]) =
     (initial_suite,
      [SetStatus None, Notify ''Review suite ended: aborted (no assistant output) '' ''info''])"
  using empty_output_aborts [OF reachable_started, where ms = "[]" and ev = "Some []"
          and fs = sample_fs]
        empty_output_aborts [OF reachable_after_turns [of 3],
          where ms = "[assistant_says [CHR 0x20, CHR 0x0A, CHR 0x09]]"
          and ev = "Some [assistant_says [CHR 0x20, CHR 0x0A, CHR 0x09]]" and fs = sample_fs]
        blank_answer_text
  by (simp add: started_eq after_turns_3)

text \<open>
  C5. When the template of the current stage resolves to the empty text, sending
  the prompt of that stage ends the run through \<open>endSuite\<close> with the reason
  \<open>missing prompt template\<close> and the name of the template; the effects are the
  cleared status and the notification, and no prompt is sent.
\<close>

theorem missing_template_ends_run:
  assumes "suiteTarget s = Some target" and "currentStage s = Some stage"
    and "loadPromptText fs (promptName stage) = []"
  shows "sendCurrentStagePrompt fs s =
           endSuite s (''missing prompt template: '' @ promptName stage) \<and>
         \<not> suiteActive (fst (sendCurrentStagePrompt fs s)) \<and>
         snd (sendCurrentStagePrompt fs s) =
           [SetStatus None,
            Notify (''Review suite ended: missing prompt template: '' @ promptName stage)
              ''info'']"
proof -
  have "sendCurrentStagePrompt fs s =
          endSuite s (''missing prompt template: '' @ promptName stage)"
    using assms by (simp add: sendCurrentStagePrompt_def buildStagePrompt_empty)
  then show ?thesis
    using endSuite_state [of s "''missing prompt template: '' @ promptName stage"]
          endSuite_effects [of s "''missing prompt template: '' @ promptName stage"]
    by simp
qed

theorem missing_template_ends_run_witness:
  "loadPromptText empty_fs ''review-overall'' = [] \<and>
   sendCurrentStagePrompt empty_fs started =
     (initial_suite,
      [SetStatus None,
       Notify ''Review suite ended: missing prompt template: review-overall'' ''info''])"
  using missing_template_ends_run [where s = started and fs = empty_fs and target = Staged
          and stage = "DEFAULT_SUITE_STAGES ! 0"]
  by (simp add: started_eq currentStage_def DEFAULT_SUITE_STAGES_def loadPromptText_def
        empty_fs_def endSuite_def Let_def updateSuiteStatus_def initial_suite_def)

section \<open>Interruption\<close>

text \<open>
  C4, as the claim states it: an input event of source \<open>interactive\<close> ends an active
  run. It fails where the context has no UI: the handler returns before it looks at
  the suite.
\<close>

theorem interrupt_without_ui_counterexample:
  "reachable started \<and> suiteActive started \<and>
   input_handler False ''interactive'' started = (started, [], Continue)"
  using reachable_started by (simp add: started_eq input_handler_def)

text \<open>
  C4, amended. In a context with a UI, an input event of source \<open>interactive\<close> ends
  the run with the reason \<open>user interrupted\<close> if and only if a run is active, and
  does nothing to the suite and to the host when none is; in a context without a UI
  the handler does nothing, also to an active run; in every case the input
  continues.
\<close>

theorem interrupt_with_ui:
  assumes "reachable s"
  shows "input_handler True ''interactive'' s =
           (if suiteActive s
            then (initial_suite,
                  [SetStatus None, Notify ''Review suite ended: user interrupted'' ''info''],
                  Continue)
            else (s, [], Continue)) \<and>
         input_handler False source s = (s, [], Continue) \<and>
         snd (snd (input_handler hasUI source s)) = Continue"
proof -
  have fr: "suiteFreshContext s" using assms by (rule inv_fresh [OF reachable_inv])
  show ?thesis
    using endSuite_eq [OF fr, of "''user interrupted''"]
    by (simp add: input_handler_def)
qed

theorem interrupt_with_ui_witness:
  "suiteActive started \<and>
   input_handler True ''interactive'' started =
     (initial_suite,
      [SetStatus None, Notify ''Review suite ended: user interrupted'' ''info''], Continue) \<and>
   \<not> suiteActive initial_suite \<and>
   input_handler True ''interactive'' initial_suite = (initial_suite, [], Continue)"
  using interrupt_with_ui [OF reachable_started] interrupt_with_ui [OF r_init]
  by (simp add: started_eq initial_suite_def)

section \<open>Redaction of the context\<close>

text \<open>
  C1. The run of the claim, on the code: the review command, the context hook on
  \<open>[U0, A0, U1]\<close>, the end of the first turn, the context hook on
  \<open>[U0, A0, U1, A1, U2]\<close>, the end of the second turn, and then the context hook at
  stage index 2 on the history \<open>[U0, A0, U1, A1, U2, A2, U3]\<close>. The hook returns at
  stage index 0 before it captures the boundary (\<open>context_at_first_stage\<close>), so the
  boundary is captured by the first call at stage index 1, which redacts nothing
  (\<open>capture_never_redacts\<close>), as the position 4 of \<open>U2\<close>. The view at stage index 2
  keeps the prompt and the answer of the first stage, \<open>U1\<close> and \<open>A1\<close>, and hides only
  \<open>U2\<close> and \<open>A2\<close>: it is not the view \<open>[U0, A0, notice, U3]\<close> of the claim, which
  the hook would give with the boundary at the position 2 of \<open>U1\<close>
  (\<open>view_with_boundary_at_first_prompt\<close>).
\<close>

theorem redaction_keeps_first_stage:
  "suiteActive (run review_events) \<and> suiteStageIndex (run review_events) = 2 \<and>
   suiteBoundaryCount (run review_events) = 4 \<and>
   history_2 =
     pre_suite @ [stage_prompt 0, answer_1, stage_prompt 1, answer_2, stage_prompt 2] \<and>
   snd (context_handler 7 (run review_events) (Some history_2)) =
     Some (pre_suite @
           [stage_prompt 0, answer_1, notice 7 (DEFAULT_SUITE_STAGES ! 2), stage_prompt 2]) \<and>
   snd (context_handler 7 (run review_events) (Some history_2)) \<noteq>
     Some (pre_suite @ [notice 7 (DEFAULT_SUITE_STAGES ! 2), stage_prompt 2])"
  unfolding review_run_state
  by (simp add: context_handler_def currentStage_def DEFAULT_SUITE_STAGES_def
        lastUserIndex_def history_2_def history_1_def history_0_def pre_suite_def
        stage_prompt_def answer_1_def answer_2_def user_says_def assistant_says_def)

text \<open>The roles of that view, in order: the two of the first stage are still there.\<close>

theorem redaction_keeps_first_stage_witness:
  "map role (the (snd (context_handler 7 (run review_events) (Some history_2)))) =
     [''user'', ''assistant'', ''user'', ''assistant'', ''user'', ''user'']"
  using redaction_keeps_first_stage
  by (simp add: pre_suite_def stage_prompt_def answer_1_def notice_def user_says_def
        assistant_says_def)

section \<open>Three turns\<close>

text \<open>
  C2, as the claim states it: on every fresh run, three ends of turn with a non-empty
  answer leave three reports and the stage index 3. It fails where a template is
  missing: here each of the three turns ends on an active run, and the third finds
  no template for the synthesis, so the run ends with no report and the stage index
  0, and no fourth prompt is sent.
\<close>

theorem three_turns_counterexample:
  "suiteActive started \<and> suiteStageIndex started = 0 \<and> suiteReports started = [] \<and>
   getLastAssistantText [sample_answer] \<noteq> [] \<and>
   suiteActive (turns fs_without_synthesis started [[sample_answer]]) \<and>
   suiteActive (turns fs_without_synthesis started [[sample_answer], [sample_answer]]) \<and>
   agent_end fs_without_synthesis
     (turns fs_without_synthesis started [[sample_answer], [sample_answer]])
     (Some [sample_answer]) =
     (initial_suite,
      [SetStatus None,
       Notify ''Review suite ended: missing prompt template: review-synthesize'' ''info'']) \<and>
   length (suiteReports
     (turns fs_without_synthesis started [[sample_answer], [sample_answer], [sample_answer]])) = 0 \<and>
   suiteStageIndex
     (turns fs_without_synthesis started [[sample_answer], [sample_answer], [sample_answer]]) = 0"
proof -
  have "turns fs_without_synthesis started [[sample_answer], [sample_answer], [sample_answer]] =
          initial_suite"
    using turns_snoc [of fs_without_synthesis started "[[sample_answer], [sample_answer]]"
            "[sample_answer]"]
    by (simp add: two_turns_without_synthesis third_turn_without_synthesis)
  moreover have "suiteActive started \<and> suiteStageIndex started = 0 \<and> suiteReports started = []"
    by (simp add: started_eq)
  ultimately show ?thesis
    using sample_answer_text
    by (simp add: one_turn_without_synthesis two_turns_without_synthesis
          third_turn_without_synthesis initial_suite_def)
qed

text \<open>
  C2, amended. On a fresh run (active, at stage index 0, with no report) whose
  templates of the second and third review stage are not empty and whose template of
  the synthesis contains the placeholder \<open>{{REPORTS}}\<close>, three ends of turn with a
  non-empty answer leave the run active with three reports, labelled Overall, Linus
  and Staff, and the stage index 3; the third of them sends the fourth prompt, that
  of the synthesis, which contains the label of each of the three reports.
\<close>

theorem three_turns:
  assumes "suiteActive s" and "suiteTarget s = Some target" and "suiteStageIndex s = 0"
    and "suiteReports s = []"
    and "getLastAssistantText m1 \<noteq> []" and "getLastAssistantText m2 \<noteq> []"
    and "getLastAssistantText m3 \<noteq> []"
    and "loadPromptText fs ''review-linus'' \<noteq> []"
    and "loadPromptText fs ''review-staff'' \<noteq> []"
    and "sublist ''{{REPORTS}}'' (loadPromptText fs ''review-synthesize'')"
  shows "suiteActive (turns fs s [m1, m2, m3]) \<and>
         length (suiteReports (turns fs s [m1, m2, m3])) = 3 \<and>
         suiteStageIndex (turns fs s [m1, m2, m3]) = 3 \<and>
         map stageLabel (suiteReports (turns fs s [m1, m2, m3])) =
           [''Overall'', ''Linus'', ''Staff''] \<and>
         snd (agent_end fs (turns fs s [m1, m2]) (Some m3)) =
           updateSuiteStatus (turns fs s [m1, m2, m3]) @
           [SendUserMessage
              (buildStagePrompt fs (turns fs s [m1, m2, m3]) target (DEFAULT_SUITE_STAGES ! 3))] \<and>
         list_all
           (\<lambda>r. sublist (stageLabel r)
                  (buildStagePrompt fs (turns fs s [m1, m2, m3]) target
                     (DEFAULT_SUITE_STAGES ! 3)))
           (suiteReports (turns fs s [m1, m2, m3]))"
proof -
  define st0 where "st0 = DEFAULT_SUITE_STAGES ! 0"
  define st1 where "st1 = DEFAULT_SUITE_STAGES ! 1"
  define st2 where "st2 = DEFAULT_SUITE_STAGES ! 2"
  define st3 where "st3 = DEFAULT_SUITE_STAGES ! 3"
  define s1 where
    "s1 = (harvest st0 (getLastAssistantText m1) s)\<lparr>suiteStageIndex := suiteStageIndex s + 1\<rparr>"
  define s2 where
    "s2 = (harvest st1 (getLastAssistantText m2) s1)\<lparr>suiteStageIndex := suiteStageIndex s1 + 1\<rparr>"
  define s3 where
    "s3 = (harvest st2 (getLastAssistantText m3) s2)\<lparr>suiteStageIndex := suiteStageIndex s2 + 1\<rparr>"
  have k: "kind st0 = Review" "kind st1 = Review" "kind st2 = Review" "kind st3 = Synthesize"
    "promptName st1 = ''review-linus''" "promptName st2 = ''review-staff''"
    "promptName st3 = ''review-synthesize''"
    "label st0 = ''Overall''" "label st1 = ''Linus''" "label st2 = ''Staff''"
    by (simp_all add: st0_def st1_def st2_def st3_def DEFAULT_SUITE_STAGES_def)
  have f1: "suiteActive s1" "suiteTarget s1 = Some target" "suiteStageIndex s1 = 1"
    "map stageLabel (suiteReports s1) = [''Overall'']"
    using assms(1-4) k by (simp_all add: s1_def harvest_def)
  have f2: "suiteActive s2" "suiteTarget s2 = Some target" "suiteStageIndex s2 = 2"
    "map stageLabel (suiteReports s2) = [''Overall'', ''Linus'']"
    using f1 k by (simp_all add: s2_def harvest_def)
  have f3: "suiteActive s3" "suiteTarget s3 = Some target" "suiteStageIndex s3 = 3"
    "map stageLabel (suiteReports s3) = [''Overall'', ''Linus'', ''Staff'']"
    using f2 k by (simp_all add: s3_def harvest_def)
  have c0: "currentStage s = Some st0" using assms(3) by (simp add: currentStage_def stages_length st0_def)
  have c1: "currentStage s1 = Some st1" using f1(3) by (simp add: currentStage_def stages_length st1_def)
  have c2: "currentStage s2 = Some st2" using f2(3) by (simp add: currentStage_def stages_length st2_def)
  have c3: "currentStage s3 = Some st3" using f3(3) by (simp add: currentStage_def stages_length st3_def)
  have p1: "trim (buildStagePrompt fs s1 target st1) \<noteq> []"
    using k(2) assms(8) by (intro review_prompt_nonblank) (simp_all add: k)
  have p2: "trim (buildStagePrompt fs s2 target st2) \<noteq> []"
    using k(3) assms(9) by (intro review_prompt_nonblank) (simp_all add: k)
  have labels: "sublist (stageLabel r) (buildStagePrompt fs s3 target st3)"
    if "r \<in> set (suiteReports s3)" for r
  proof -
    have "stageLabel r \<in> set (map stageLabel (suiteReports s3))" using that by simp
    then have "plain_text (stageLabel r)"
      unfolding f3(4) using default_labels_plain by auto
    with k(4) _ that show ?thesis
      by (rule synthesis_prompt_labels) (simp add: k assms(10))
  qed
  have p3: "trim (buildStagePrompt fs s3 target st3) \<noteq> []"
  proof -
    obtain r rs where rr: "suiteReports s3 = r # rs" "stageLabel r = ''Overall''"
      using f3(4) by (cases "suiteReports s3") auto
    then have "sublist ''Overall'' (buildStagePrompt fs s3 target st3)"
      using labels [of r] by simp
    then show ?thesis
      by (rule sublist_nonblank [where c = "CHR ''O''"]) (simp_all add: is_ws_def)
  qed
  have t1: "agent_end fs s (Some m1) =
              (s1, updateSuiteStatus s1 @ [SendUserMessage (buildStagePrompt fs s1 target st1)])"
    using assms(1,2) c0 assms(5) _ s1_def c1 p1 by (rule turn_advances) (simp add: assms(3))
  have t2: "agent_end fs s1 (Some m2) =
              (s2, updateSuiteStatus s2 @ [SendUserMessage (buildStagePrompt fs s2 target st2)])"
    using f1(1,2) c1 assms(6) _ s2_def c2 p2 by (rule turn_advances) (simp add: f1(3))
  have t3: "agent_end fs s2 (Some m3) =
              (s3, updateSuiteStatus s3 @ [SendUserMessage (buildStagePrompt fs s3 target st3)])"
    using f2(1,2) c2 assms(7) _ s3_def c3 p3 by (rule turn_advances) (simp add: f2(3))
  have r2: "turns fs s [m1, m2] = s2" by (simp add: turns_def t1 t2)
  have r3: "turns fs s [m1, m2, m3] = s3" by (simp add: turns_def t1 t2 t3)
  have len: "length (suiteReports s3) = 3"
    using arg_cong [OF f3(4), of length] by simp
  show ?thesis
    unfolding r2 r3 using f3 len t3 labels
    by (simp add: st3_def [symmetric] list_all_iff)
qed

theorem three_turns_witness:
  "suiteActive started \<and> suiteTarget started = Some Staged \<and> suiteStageIndex started = 0 \<and>
   suiteReports started = [] \<and>
   length (suiteReports
     (turns sample_fs started [[sample_answer], [sample_answer], [sample_answer]])) = 3 \<and>
   suiteStageIndex
     (turns sample_fs started [[sample_answer], [sample_answer], [sample_answer]]) = 3 \<and>
   list_all
     (\<lambda>r. sublist (stageLabel r)
            (buildStagePrompt sample_fs
               (turns sample_fs started [[sample_answer], [sample_answer], [sample_answer]])
               Staged (DEFAULT_SUITE_STAGES ! 3)))
     (suiteReports
        (turns sample_fs started [[sample_answer], [sample_answer], [sample_answer]]))"
proof -
  have s: "suiteActive started" "suiteTarget started = Some Staged"
    "suiteStageIndex started = 0" "suiteReports started = []"
    by (simp_all add: started_eq)
  show ?thesis
    using three_turns [OF s sample_answer_text sample_answer_text sample_answer_text
            sample_templates_present] s
    by simp
qed

end
